theory Spec2Isabelle
  imports Complex_Main "HOL-Library.AList" "HOL-Library.Word"
begin

section \<open>Similarity utility (similarity.ts)\<close>

text \<open>
  JavaScript numbers are modelled as \<^typ>\<open>real\<close>, without rounding and without \<open>NaN\<close>;
  the arithmetic and the comparisons are written as in the source. A candidate is the
  object \<open>{ id, embedding }\<close>, a match the object \<open>{ id, score }\<close>; \<open>null\<close> is
  \<open>None\<close>.
\<close>

record Candidate =
  id_cand :: string
  embedding :: "real list"

record Match =
  id_match :: string
  score :: real

text \<open>The \<open>for\<close> loop of \<open>cosineSimilarity\<close>, carrying \<open>(dot, magA, magB)\<close>.\<close>

fun cosineLoop :: "real list \<Rightarrow> real list \<Rightarrow> real \<times> real \<times> real \<Rightarrow> real \<times> real \<times> real" where
  "cosineLoop (x # xs) (y # ys) (dot, magA, magB) =
     cosineLoop xs ys (dot + x * y, magA + x * x, magB + y * y)"
| "cosineLoop _ _ acc = acc"

definition cosineSimilarity :: "real list \<Rightarrow> real list \<Rightarrow> real" where
  "cosineSimilarity a b =
     (if length a \<noteq> length b \<or> length a = 0 then 0
      else (case cosineLoop a b (0, 0, 0) of
              (dot, magA, magB) \<Rightarrow>
                (let denom = sqrt magA * sqrt magB
                 in if denom = 0 then 0 else dot / denom)))"

text \<open>The \<open>for .. of\<close> loop of \<open>bestMatch\<close>, carrying \<open>best\<close>.\<close>

fun bestMatchLoop :: "real list \<Rightarrow> real \<Rightarrow> Match option \<Rightarrow> Candidate list \<Rightarrow> Match option" where
  "bestMatchLoop q t best [] = best"
| "bestMatchLoop q t best (c # cs) =
     (if length (embedding c) = 0 then bestMatchLoop q t best cs
      else (let sc = cosineSimilarity q (embedding c)
            in if sc \<ge> t \<and> (case best of None \<Rightarrow> True | Some b \<Rightarrow> sc > score b)
               then bestMatchLoop q t (Some \<lparr>id_match = id_cand c, score = sc\<rparr>) cs
               else bestMatchLoop q t best cs))"

definition bestMatch :: "real list \<Rightarrow> Candidate list \<Rightarrow> real \<Rightarrow> Match option" where
  "bestMatch queryEmbedding candidates threshold =
     bestMatchLoop queryEmbedding threshold None candidates"

section \<open>Fingerprint (hash.ts)\<close>

text \<open>
  Text is a \<^typ>\<open>string\<close>, one \<^typ>\<open>char\<close> per code unit. \<open>Math.imul(h, 31) + c | 0\<close> is
  arithmetic modulo \<open>2^32\<close>, \<open>h >>> 0\<close> the unsigned reading of the 32 bits.
\<close>

definition digitChar :: "nat \<Rightarrow> char" where
  "digitChar d = ''0123456789abcdefghijklmnopqrstuvwxyz'' ! d"

text \<open>\<open>n.toString(radix)\<close> for a natural number and a radix from 2 to 36.\<close>

function natToString :: "nat \<Rightarrow> nat \<Rightarrow> string" where
  "natToString radix n =
     (if n < radix \<or> radix < 2 then [digitChar n]
      else natToString radix (n div radix) @ [digitChar (n mod radix)])"
  by pat_completeness auto
termination
  by (relation "measure snd") auto

declare natToString.simps [simp del]

definition padStart :: "nat \<Rightarrow> char \<Rightarrow> string \<Rightarrow> string" where
  "padStart n c s = replicate (n - length s) c @ s"

fun hashLoop :: "32 word \<Rightarrow> string \<Rightarrow> 32 word" where
  "hashLoop h [] = h"
| "hashLoop h (c # cs) = hashLoop (h * 31 + of_nat (of_char c)) cs"

definition hashPrompt :: "string \<Rightarrow> string" where
  "hashPrompt text = padStart 8 (CHR ''0'') (natToString 16 (unat (hashLoop 5381 text)))"

section \<open>Hierarchy store (tree.ts)\<close>

text \<open>
  \<open>NodeRank\<close> is the type \<open>0 | 1 | 2 | 3\<close>, a \<^typ>\<open>nat\<close> here. The objects \<open>nodes\<close> and
  \<open>cache\<close> and the \<open>Map\<close> \<open>embeddings\<close> are association lists in insertion order:
  \<^const>\<open>map_of\<close> reads a key, \<^const>\<open>AList.update\<close> assigns one (a new key goes to the end,
  an old one keeps its place), \<^const>\<open>AList.map_entry\<close> mutates the object stored under a key.
\<close>

record OutlineNode =
  id_node :: string
  label :: string
  rank :: nat
  children :: "string list"
  promptIndices :: "nat list"
  promptCount :: nat
  createdAt :: nat
  updatedAt :: nat

record PromptInput =
  index :: nat
  fullText :: string
  firstSentence :: string

record PromptRecord = PromptInput +
  hash :: string

record CacheEntry =
  nodeId :: string
  confidence :: real

record ConversationIndex =
  conversationId :: string
  prompts :: "PromptRecord list"
  nodes :: "(string \<times> OutlineNode) list"
  embeddings :: "(string \<times> real list) list"
  cache :: "(string \<times> CacheEntry) list"

text \<open>
  What a call reads from outside the program: the clock, the random suffix of a node
  identifier, and the two remote capabilities behind \<open>sendToBackground\<close>. A capability
  answers the \<open>k\<close>-th request of a call with a failure (\<open>Inl\<close>, the \<open>ok: false\<close> response
  and its error text) or a value (\<open>Inr\<close>); the background script turns every error of a
  remote call into such a failure. \<open>saveRejects\<close> says whether \<open>saveConversation\<close> rejects.
\<close>

record Env =
  now :: nat
  random36 :: string
  embedText :: "nat \<Rightarrow> string \<Rightarrow> string + real list"
  generateLabel :: "nat \<Rightarrow> string \<Rightarrow> string list \<Rightarrow> string + string"
  saveRejects :: bool

datatype GeminiRequest =
    GEMINI_EMBED string
  | GEMINI_LABEL string "string list"
  | GEMINI_LIST_MODELS

definition createIndex :: "Env \<Rightarrow> string \<Rightarrow> ConversationIndex" where
  "createIndex env cid =
     (let root = \<lparr>id_node = ''root'', label = ''root'', rank = 0, children = [],
                   promptIndices = [], promptCount = 0,
                   createdAt = now env, updatedAt = now env\<rparr>
      in \<lparr>conversationId = cid, prompts = [], nodes = [(''root'', root)],
          embeddings = [], cache = []\<rparr>)"

text \<open>The identifier \<open>node_${Date.now()}_${Math.random().toString(36).slice(2, 7)}\<close>.\<close>

definition newNodeId :: "Env \<Rightarrow> string" where
  "newNodeId env = ''node_'' @ natToString 10 (now env) @ ''_'' @ random36 env"

text \<open>\<open>spawnNode\<close> returns the new node; its callers read the \<open>id\<close> of it only.\<close>

definition spawnNode ::
  "Env \<Rightarrow> ConversationIndex \<Rightarrow> string \<Rightarrow> string \<Rightarrow> nat \<Rightarrow> real list option
     \<Rightarrow> OutlineNode \<times> ConversationIndex" where
  "spawnNode env ix parentId lbl rnk emb =
     (let nid = newNodeId env;
          node = \<lparr>id_node = nid, label = lbl, rank = rnk, children = [],
                   promptIndices = [], promptCount = 0,
                   createdAt = now env, updatedAt = now env\<rparr>;
          ix1 = ix\<lparr>nodes := AList.update nid node (nodes ix)\<rparr>;
          ix2 = ix1\<lparr>nodes := AList.map_entry parentId
                            (\<lambda>parent. parent\<lparr>children := children parent @ [nid]\<rparr>) (nodes ix1)\<rparr>;
          ix3 = (case emb of None \<Rightarrow> ix2
                 | Some e \<Rightarrow> ix2\<lparr>embeddings := AList.update nid e (embeddings ix2)\<rparr>)
      in (node, ix3))"

definition insertPromptIntoNode ::
  "Env \<Rightarrow> ConversationIndex \<Rightarrow> string \<Rightarrow> nat \<Rightarrow> ConversationIndex" where
  "insertPromptIntoNode env ix nid promptIndex =
     ix\<lparr>nodes := AList.map_entry nid
           (\<lambda>node. (if promptIndex \<in> set (promptIndices node) then node
                     else node\<lparr>promptIndices := promptIndices node @ [promptIndex]\<rparr>)
                    \<lparr>updatedAt := now env\<rparr>) (nodes ix)\<rparr>"

text \<open>
  \<open>recountSubtree\<close> recurses through the \<open>children\<close> lists of the store, which nothing in
  the function bounds. The first argument is the number of nested calls allowed, as the
  call stack of the engine allows finitely many; \<open>None\<close> says that the recursion did not
  return within it. A result \<open>Some (ix', tot)\<close> is the store after the call and the
  returned number.
\<close>

fun recountSubtree :: "nat \<Rightarrow> ConversationIndex \<Rightarrow> string \<Rightarrow> (ConversationIndex \<times> nat) option" where
  "recountSubtree 0 ix nid = None"
| "recountSubtree (Suc depth) ix nid =
     (case map_of (nodes ix) nid of
        None \<Rightarrow> Some (ix, 0)
      | Some node \<Rightarrow>
          (case fold (\<lambda>childId acc.
                        case acc of
                          None \<Rightarrow> None
                        | Some (ix1, tot) \<Rightarrow>
                            (case recountSubtree depth ix1 childId of
                               None \<Rightarrow> None
                             | Some (ix2, sub) \<Rightarrow> Some (ix2, tot + sub)))
                     (children node) (Some (ix, length (promptIndices node))) of
             None \<Rightarrow> None
           | Some (ix1, tot) \<Rightarrow>
               Some (ix1\<lparr>nodes := AList.map_entry nid (\<lambda>n. n\<lparr>promptCount := tot\<rparr>) (nodes ix1)\<rparr>,
                     tot)))"

definition updatePromptCounts :: "nat \<Rightarrow> ConversationIndex \<Rightarrow> ConversationIndex option" where
  "updatePromptCounts depth ix = map_option fst (recountSubtree depth ix ''root'')"

definition getChildCandidates :: "ConversationIndex \<Rightarrow> string \<Rightarrow> nat option \<Rightarrow> Candidate list" where
  "getChildCandidates ix parentId rnk =
     (case map_of (nodes ix) parentId of
        None \<Rightarrow> []
      | Some parent \<Rightarrow>
          map (\<lambda>i. \<lparr>id_cand = i, embedding = the (map_of (embeddings ix) i)\<rparr>)
            (filter (\<lambda>i. (case map_of (nodes ix) i of
                             None \<Rightarrow> False
                           | Some n \<Rightarrow> (case rnk of None \<Rightarrow> True | Some r \<Rightarrow> rank n = r))
                          \<and> map_of (embeddings ix) i \<noteq> None)
               (children parent)))"

definition getAllEmbeddedCandidates :: "ConversationIndex \<Rightarrow> Candidate list" where
  "getAllEmbeddedCandidates ix =
     map (\<lambda>(i, e). \<lparr>id_cand = i, embedding = e\<rparr>) (embeddings ix)"

section \<open>Classification pipeline (pipeline.ts)\<close>

record Settings =
  geminiApiKey :: string
  thresholdHigh :: real
  thresholdLow :: real

text \<open>\<open>ClassifyResult\<close> is a cache entry with \<open>isNewNode\<close>, as \<open>{ ...cached, isNewNode }\<close> builds it.\<close>

record ClassifyResult = CacheEntry +
  isNewNode :: bool

text \<open>A call of \<open>classifyPrompt\<close> ends by returning its result or by throwing an \<open>Error\<close>
  with a message.\<close>

datatype Outcome = Returned ClassifyResult | Threw string

text \<open>\<open>String.prototype.trim\<close> on code units below 256: the white space and line terminator
  characters are U+0009 to U+000D, U+0020 and U+00A0.\<close>

definition isWhiteSpace :: "char \<Rightarrow> bool" where
  "isWhiteSpace c \<longleftrightarrow> (of_char c :: nat) \<in> {9, 10, 11, 12, 13, 32, 160}"

definition trim :: "string \<Rightarrow> string" where
  "trim s = rev (dropWhile isWhiteSpace (rev (dropWhile isWhiteSpace s)))"

text \<open>\<open>fetchLabel\<close> sends the \<open>k\<close>-th request of the call; it returns the label and the request.\<close>

definition fetchLabel :: "Env \<Rightarrow> nat \<Rightarrow> string \<Rightarrow> ConversationIndex \<Rightarrow> string \<times> GeminiRequest" where
  "fetchLabel env k text ix =
     (let existingLabels = map label (filter (\<lambda>n. rank n > 0) (map snd (nodes ix)))
      in ((case generateLabel env k text existingLabels of
             Inr lbl \<Rightarrow> lbl
           | Inl err \<Rightarrow> trim (take 40 text)),
          GEMINI_LABEL text existingLabels))"

definition commit ::
  "nat \<Rightarrow> Env \<Rightarrow> ConversationIndex \<Rightarrow> string \<Rightarrow> string \<Rightarrow> real \<Rightarrow> bool \<Rightarrow> nat
     \<Rightarrow> (ClassifyResult \<times> ConversationIndex) option" where
  "commit depth env ix h nid conf isNew promptIndex =
     (case updatePromptCounts depth (insertPromptIntoNode env ix nid promptIndex) of
        None \<Rightarrow> None
      | Some ix1 \<Rightarrow>
          Some (\<lparr>nodeId = nid, confidence = conf, isNewNode = isNew\<rparr>,
                ix1\<lparr>cache := AList.update h \<lparr>nodeId = nid, confidence = conf\<rparr> (cache ix1)\<rparr>))"

text \<open>The end of a call that returns: the result, the store and the requests sent.\<close>

definition returned ::
  "(ClassifyResult \<times> ConversationIndex) option \<Rightarrow> GeminiRequest list
     \<Rightarrow> (Outcome \<times> ConversationIndex \<times> GeminiRequest list) option" where
  "returned r calls = map_option (\<lambda>(res, ix). (Returned res, ix, calls)) r"

text \<open>Step 6 of \<open>classifyPrompt\<close>, which three paths of the function fall through to;
  \<open>calls\<close> are the requests sent before it.\<close>

definition step6 ::
  "nat \<Rightarrow> Env \<Rightarrow> ConversationIndex \<Rightarrow> PromptInput \<Rightarrow> string \<Rightarrow> real list \<Rightarrow> GeminiRequest list
     \<Rightarrow> (Outcome \<times> ConversationIndex \<times> GeminiRequest list) option" where
  "step6 depth env ix prompt h sentenceEmbedding calls =
     (case fetchLabel env (length calls) (firstSentence prompt) ix of
        (lbl, req) \<Rightarrow>
          (case spawnNode env ix ''root'' lbl 1 (Some sentenceEmbedding) of
             (header, ix1) \<Rightarrow>
               returned (commit depth env ix1 h (id_node header) 0 True (index prompt))
                 (calls @ [req])))"

text \<open>
  \<open>classifyPrompt\<close> with the store passed through: the value is \<open>None\<close> when the recount
  does not return within \<open>depth\<close> nested calls, and otherwise the outcome, the store after
  the call and the requests sent to the capabilities, in order.
\<close>

definition classifyPrompt ::
  "nat \<Rightarrow> Env \<Rightarrow> ConversationIndex \<Rightarrow> PromptInput \<Rightarrow> Settings
     \<Rightarrow> (Outcome \<times> ConversationIndex \<times> GeminiRequest list) option" where
  "classifyPrompt depth env ix prompt settings =
     (let h = hashPrompt (fullText prompt) in
      case map_of (cache ix) h of
        Some cached \<Rightarrow>
          (case updatePromptCounts depth
                  (insertPromptIntoNode env ix (nodeId cached) (index prompt)) of
             None \<Rightarrow> None
           | Some ix1 \<Rightarrow>
               Some (Returned \<lparr>nodeId = nodeId cached, confidence = confidence cached,
                               isNewNode = False\<rparr>, ix1, []))
      | None \<Rightarrow>
          (case embedText env 0 (firstSentence prompt) of
             Inl err \<Rightarrow>
               Some (Threw (''[pipeline] Embed failed: '' @ err), ix,
                     [GEMINI_EMBED (firstSentence prompt)])
           | Inr sentenceEmbedding \<Rightarrow>
               (let calls1 = [GEMINI_EMBED (firstSentence prompt)] in
                case bestMatch sentenceEmbedding (getChildCandidates ix ''root'' (Some 1))
                       (thresholdHigh settings) of
                  Some rank1Hit \<Rightarrow>
                    (case bestMatch sentenceEmbedding
                            (getChildCandidates ix (id_match rank1Hit) (Some 2))
                            (thresholdHigh settings) of
                       Some rank2Hit \<Rightarrow>
                         returned (commit depth env ix h (id_match rank2Hit) (score rank2Hit)
                                     False (index prompt)) calls1
                     | None \<Rightarrow>
                         (case fetchLabel env 1 (firstSentence prompt) ix of
                            (lbl, req) \<Rightarrow>
                              (case spawnNode env ix (id_match rank1Hit) lbl 2
                                      (Some sentenceEmbedding) of
                                 (sub, ix1) \<Rightarrow>
                                   returned (commit depth env ix1 h (id_node sub)
                                               (score rank1Hit) True (index prompt))
                                     (calls1 @ [req]))))
                | None \<Rightarrow>
                    (if length (nodes ix) > 1 then
                       (let calls2 = calls1 @ [GEMINI_EMBED (fullText prompt)] in
                        case embedText env 1 (fullText prompt) of
                          Inr fullEmbedding \<Rightarrow>
                            (case bestMatch fullEmbedding (getAllEmbeddedCandidates ix)
                                    (thresholdLow settings) of
                               Some fullHit \<Rightarrow>
                                 (if (case map_of (nodes ix) (id_match fullHit) of
                                        None \<Rightarrow> False
                                      | Some hitNode \<Rightarrow> rank hitNode = 1)
                                  then
                                    (case fetchLabel env 2 (firstSentence prompt) ix of
                                       (lbl, req) \<Rightarrow>
                                         (case spawnNode env ix (id_match fullHit) lbl 2
                                                 (Some fullEmbedding) of
                                            (sub, ix1) \<Rightarrow>
                                              returned (commit depth env ix1 h (id_node sub)
                                                          (score fullHit) True (index prompt))
                                                (calls2 @ [req])))
                                  else
                                    returned (commit depth env ix h (id_match fullHit)
                                                (score fullHit) False (index prompt)) calls2)
                             | None \<Rightarrow> step6 depth env ix prompt h sentenceEmbedding calls2)
                        | Inl err \<Rightarrow> step6 depth env ix prompt h sentenceEmbedding calls2)
                     else step6 depth env ix prompt h sentenceEmbedding calls1))))"

text \<open>\<open>initializeEmbeddings\<close>: the loop carries the number of requests sent and the store.\<close>

definition initializeEmbeddings :: "Env \<Rightarrow> ConversationIndex \<Rightarrow> Settings \<Rightarrow> ConversationIndex" where
  "initializeEmbeddings env ix settings =
     (if geminiApiKey settings = [] then ix
      else
        (let needsEmbed = filter (\<lambda>n. rank n > 0 \<and> map_of (embeddings ix) (id_node n) = None)
                            (map snd (nodes ix))
         in snd (fold (\<lambda>node (k, ix1).
                         (Suc k,
                          case embedText env k (label node) of
                            Inl err \<Rightarrow> ix1
                          | Inr e \<Rightarrow> ix1\<lparr>embeddings := AList.update (id_node node) e (embeddings ix1)\<rparr>))
                   needsEmbed (0, ix))))"

section \<open>Ingestion queue (content.ts)\<close>

text \<open>A parsed message without its DOM element.\<close>

datatype Role = user | assistant



section \<open>Reachable stores\<close>

text \<open>
  The stores that \<open>createIndex\<close> followed by calls of \<open>classifyPrompt\<close> and
  \<open>initializeEmbeddings\<close> produces, whatever the outside answers.
\<close>

inductive reachable :: "ConversationIndex \<Rightarrow> bool" where
  created: "reachable (createIndex env cid)"
| classified:
    "reachable ix \<Longrightarrow> classifyPrompt depth env ix prompt settings = Some (out, ix', calls)
       \<Longrightarrow> reachable ix'"
| embedded: "reachable ix \<Longrightarrow> reachable (initializeEmbeddings env ix settings)"

text \<open>
  The same, when no call generates the identifier of a node that the store already has:
  identifiers are unique and never reused.
\<close>

inductive reachableFresh :: "ConversationIndex \<Rightarrow> bool" where
  created: "reachableFresh (createIndex env cid)"
| classified:
    "reachableFresh ix \<Longrightarrow> map_of (nodes ix) (newNodeId env) = None
       \<Longrightarrow> classifyPrompt depth env ix prompt settings = Some (out, ix', calls)
       \<Longrightarrow> reachableFresh ix'"
| embedded: "reachableFresh ix \<Longrightarrow> reachableFresh (initializeEmbeddings env ix settings)"

section \<open>Notions used in the proofs\<close>

text \<open>
  What the recount reads of a node, its children and the number of prompts attached to it,
  and what it writes, the count.
\<close>

definition payload :: "ConversationIndex \<Rightarrow> string \<Rightarrow> (string list \<times> nat) option" where
  "payload ix j = map_option (\<lambda>n. (children n, length (promptIndices n))) (map_of (nodes ix) j)"

definition counts :: "ConversationIndex \<Rightarrow> string \<Rightarrow> nat option" where
  "counts ix j = map_option promptCount (map_of (nodes ix) j)"

text \<open>
  Three functions of the children graph alone describe a call of \<open>recountSubtree\<close>
  with \<open>d\<close> nested calls allowed: whether it returns, the number it returns, and the nodes
  whose count it writes.
\<close>

fun returns :: "nat \<Rightarrow> (string \<Rightarrow> (string list \<times> nat) option) \<Rightarrow> string \<Rightarrow> bool" where
  "returns 0 P k = False"
| "returns (Suc d) P k = (case P k of None \<Rightarrow> True | Some (cs, m) \<Rightarrow> (\<forall>c\<in>set cs. returns d P c))"

fun subtotal :: "nat \<Rightarrow> (string \<Rightarrow> (string list \<times> nat) option) \<Rightarrow> string \<Rightarrow> nat" where
  "subtotal 0 P k = 0"
| "subtotal (Suc d) P k =
     (case P k of None \<Rightarrow> 0 | Some (cs, m) \<Rightarrow> m + sum_list (map (subtotal d P) cs))"

fun visited :: "nat \<Rightarrow> (string \<Rightarrow> (string list \<times> nat) option) \<Rightarrow> string \<Rightarrow> string set" where
  "visited 0 P k = {}"
| "visited (Suc d) P k =
     (case P k of None \<Rightarrow> {} | Some (cs, m) \<Rightarrow> insert k (\<Union>c\<in>set cs. visited d P c))"

text \<open>Two stores that differ in the counts of their nodes only.\<close>

definition onlyCounts :: "ConversationIndex \<Rightarrow> ConversationIndex \<Rightarrow> bool" where
  "onlyCounts ix ix' \<longleftrightarrow>
     conversationId ix' = conversationId ix \<and> prompts ix' = prompts ix \<and>
     embeddings ix' = embeddings ix \<and> cache ix' = cache ix \<and>
     list_all2 (\<lambda>a b. fst b = fst a \<and> (\<exists>c. snd b = (snd a)\<lparr>promptCount := c\<rparr>))
       (nodes ix) (nodes ix')"

text \<open>The body of the loop over the children in \<open>recountSubtree\<close>.\<close>

definition recountStep ::
  "nat \<Rightarrow> string \<Rightarrow> (ConversationIndex \<times> nat) option \<Rightarrow> (ConversationIndex \<times> nat) option" where
  "recountStep d childId acc =
     (case acc of
        None \<Rightarrow> None
      | Some (ix1, tot) \<Rightarrow>
          (case recountSubtree d ix1 childId of
             None \<Rightarrow> None
           | Some (ix2, sub) \<Rightarrow> Some (ix2, tot + sub)))"

text \<open>
  The root has no embedding and no prompt of its own, no cache entry points to it, and
  only a node of rank 0 carries its identifier.
\<close>

definition rootClean :: "ConversationIndex \<Rightarrow> bool" where
  "rootClean ix \<longleftrightarrow>
     map_of (embeddings ix) ''root'' = None \<and>
     (\<exists>r. map_of (nodes ix) ''root'' = Some r \<and> promptIndices r = []) \<and>
     (\<forall>h e. map_of (cache ix) h = Some e \<longrightarrow> nodeId e \<noteq> ''root'') \<and>
     (\<forall>n\<in>snd ` set (nodes ix). id_node n = ''root'' \<longrightarrow> rank n = 0)"

text \<open>
  The nodes form a tree of depth two under the root: the root has rank 0, every child has
  the rank of its parent plus one, no rank exceeds 2, and every other node is a child of
  some node.
\<close>

definition treeShapedMap :: "(string \<Rightarrow> OutlineNode option) \<Rightarrow> bool" where
  "treeShapedMap N \<longleftrightarrow>
     (\<exists>r. N ''root'' = Some r \<and> rank r = 0) \<and>
     (\<forall>k n. N k = Some n \<longrightarrow>
        rank n \<le> 2 \<and> (rank n = 0 \<longrightarrow> k = ''root'') \<and>
        (\<forall>c\<in>set (children n). \<exists>m. N c = Some m \<and> rank m = Suc (rank n)) \<and>
        (k \<noteq> ''root'' \<longrightarrow> (\<exists>p pn. N p = Some pn \<and> k \<in> set (children pn))))"

definition treeShaped :: "ConversationIndex \<Rightarrow> bool" where
  "treeShaped ix \<longleftrightarrow> treeShapedMap (map_of (nodes ix))"

text \<open>The count of every node is the number of its own prompts plus the counts of its children.\<close>

definition countsOk :: "ConversationIndex \<Rightarrow> bool" where
  "countsOk ix \<longleftrightarrow>
     (\<forall>k n. map_of (nodes ix) k = Some n \<longrightarrow>
        promptCount n = length (promptIndices n) +
          sum_list (map (\<lambda>c. case map_of (nodes ix) c of None \<Rightarrow> 0 | Some m \<Rightarrow> promptCount m)
                      (children n)))"

section \<open>Sample runs\<close>

text \<open>
  An outside whose embedding capability answers every text with the vector \<open>[1]\<close> and
  whose label capability is down, and the stores after one and after two passages.
\<close>

definition demoEnv :: "nat \<Rightarrow> Env" where
  "demoEnv t = \<lparr>now = t, random36 = ''a'', embedText = (\<lambda>k txt. Inr [1]),
                generateLabel = (\<lambda>k txt ls. Inl ''offline''), saveRejects = False\<rparr>"

definition demoSettings :: Settings where
  "demoSettings = \<lparr>geminiApiKey = ''key'', thresholdHigh = 4 / 5, thresholdLow = 1 / 2\<rparr>"

definition demoPrompt :: "string \<Rightarrow> nat \<Rightarrow> PromptInput" where
  "demoPrompt t i = \<lparr>index = i, fullText = t, firstSentence = CHR '' '' # t\<rparr>"

definition demoStore1 :: ConversationIndex where
  "demoStore1 =
     \<lparr>conversationId = ''c'', prompts = [],
      nodes = [(''root'', \<lparr>id_node = ''root'', label = ''root'', rank = 0,
                           children = [''node_1_a''], promptIndices = [], promptCount = 1,
                           createdAt = 0, updatedAt = 0\<rparr>),
               (''node_1_a'', \<lparr>id_node = ''node_1_a'', label = ''a'', rank = 1,
                           children = [], promptIndices = [0], promptCount = 1,
                           createdAt = 1, updatedAt = 1\<rparr>)],
      embeddings = [(''node_1_a'', [1])],
      cache = [(hashPrompt ''a'', \<lparr>nodeId = ''node_1_a'', confidence = 0\<rparr>)]\<rparr>"

definition demoStore2 :: ConversationIndex where
  "demoStore2 =
     \<lparr>conversationId = ''c'', prompts = [],
      nodes = [(''root'', \<lparr>id_node = ''root'', label = ''root'', rank = 0,
                           children = [''node_1_a''], promptIndices = [], promptCount = 2,
                           createdAt = 0, updatedAt = 0\<rparr>),
               (''node_1_a'', \<lparr>id_node = ''node_1_a'', label = ''a'', rank = 1,
                           children = [''node_2_a''], promptIndices = [0], promptCount = 2,
                           createdAt = 1, updatedAt = 1\<rparr>),
               (''node_2_a'', \<lparr>id_node = ''node_2_a'', label = ''b'', rank = 2,
                           children = [], promptIndices = [1], promptCount = 1,
                           createdAt = 2, updatedAt = 2\<rparr>)],
      embeddings = [(''node_1_a'', [1]), (''node_2_a'', [1])],
      cache = [(hashPrompt ''a'', \<lparr>nodeId = ''node_1_a'', confidence = 0\<rparr>),
               (hashPrompt ''b'', \<lparr>nodeId = ''node_2_a'', confidence = 1\<rparr>)]\<rparr>"

section \<open>Properties of the similarity utility\<close>

lemma bestMatchLoop_None:
  "bestMatchLoop q t best cs = None \<longleftrightarrow>
     best = None \<and> (\<forall>c\<in>set cs. embedding c = [] \<or> cosineSimilarity q (embedding c) < t)"
  by (induction cs arbitrary: best) (auto simp: Let_def split: option.splits)

lemma bestMatchLoop_Some:
  "bestMatchLoop q t best cs = Some r \<Longrightarrow>
     (best = Some r \<and>
        (\<forall>x\<in>set cs. embedding x \<noteq> [] \<and> t \<le> cosineSimilarity q (embedding x)
            \<longrightarrow> cosineSimilarity q (embedding x) \<le> score r)) \<or>
     (\<exists>pre c post. cs = pre @ c # post \<and> embedding c \<noteq> [] \<and>
        t \<le> cosineSimilarity q (embedding c) \<and>
        r = \<lparr>id_match = id_cand c, score = cosineSimilarity q (embedding c)\<rparr> \<and>
        (\<forall>b. best = Some b \<longrightarrow> score b < score r) \<and>
        (\<forall>x\<in>set pre. embedding x \<noteq> [] \<and> t \<le> cosineSimilarity q (embedding x)
            \<longrightarrow> cosineSimilarity q (embedding x) < score r) \<and>
        (\<forall>x\<in>set post. embedding x \<noteq> [] \<and> t \<le> cosineSimilarity q (embedding x)
            \<longrightarrow> cosineSimilarity q (embedding x) \<le> score r))"
proof (induction cs arbitrary: best)
  case Nil
  then show ?case by simp
next
  case (Cons c cs)
  let ?sc = "cosineSimilarity q (embedding c)"
  let ?upd = "embedding c \<noteq> [] \<and> t \<le> ?sc \<and> (case best of None \<Rightarrow> True | Some b \<Rightarrow> score b < ?sc)"
  show ?case
  proof (cases ?upd)
    case True
    then have run: "bestMatchLoop q t (Some \<lparr>id_match = id_cand c, score = ?sc\<rparr>) cs = Some r"
      using Cons.prems by (simp add: Let_def)
    from Cons.IH[OF run] show ?thesis
    proof
      assume a: "Some \<lparr>id_match = id_cand c, score = ?sc\<rparr> = Some r \<and>
        (\<forall>x\<in>set cs. embedding x \<noteq> [] \<and> t \<le> cosineSimilarity q (embedding x)
            \<longrightarrow> cosineSimilarity q (embedding x) \<le> score r)"
      have "c # cs = [] @ c # cs" by simp
      with a True show ?thesis
        apply (intro disjI2)
        apply (rule exI[of _ "[]"], rule exI[of _ c], rule exI[of _ cs])
        by (auto split: option.splits)
    next
      assume "\<exists>pre c' post. cs = pre @ c' # post \<and> embedding c' \<noteq> [] \<and>
        t \<le> cosineSimilarity q (embedding c') \<and>
        r = \<lparr>id_match = id_cand c', score = cosineSimilarity q (embedding c')\<rparr> \<and>
        (\<forall>b. Some \<lparr>id_match = id_cand c, score = ?sc\<rparr> = Some b \<longrightarrow> score b < score r) \<and>
        (\<forall>x\<in>set pre. embedding x \<noteq> [] \<and> t \<le> cosineSimilarity q (embedding x)
            \<longrightarrow> cosineSimilarity q (embedding x) < score r) \<and>
        (\<forall>x\<in>set post. embedding x \<noteq> [] \<and> t \<le> cosineSimilarity q (embedding x)
            \<longrightarrow> cosineSimilarity q (embedding x) \<le> score r)"
      then obtain pre c' post where s: "cs = pre @ c' # post" "embedding c' \<noteq> []"
        "t \<le> cosineSimilarity q (embedding c')"
        "r = \<lparr>id_match = id_cand c', score = cosineSimilarity q (embedding c')\<rparr>"
        "?sc < score r"
        "\<forall>x\<in>set pre. embedding x \<noteq> [] \<and> t \<le> cosineSimilarity q (embedding x)
            \<longrightarrow> cosineSimilarity q (embedding x) < score r"
        "\<forall>x\<in>set post. embedding x \<noteq> [] \<and> t \<le> cosineSimilarity q (embedding x)
            \<longrightarrow> cosineSimilarity q (embedding x) \<le> score r"
        by auto
      from s True show ?thesis
        apply (intro disjI2)
        apply (rule exI[of _ "c # pre"], rule exI[of _ c'], rule exI[of _ post])
        by (auto split: option.splits)
    qed
  next
    case False
    then have run: "bestMatchLoop q t best cs = Some r"
      using Cons.prems by (auto simp: Let_def split: if_splits option.splits)
    from Cons.IH[OF run] show ?thesis
    proof
      assume a: "best = Some r \<and>
        (\<forall>x\<in>set cs. embedding x \<noteq> [] \<and> t \<le> cosineSimilarity q (embedding x)
            \<longrightarrow> cosineSimilarity q (embedding x) \<le> score r)"
      with False show ?thesis by (auto split: option.splits)
    next
      assume "\<exists>pre c' post. cs = pre @ c' # post \<and> embedding c' \<noteq> [] \<and>
        t \<le> cosineSimilarity q (embedding c') \<and>
        r = \<lparr>id_match = id_cand c', score = cosineSimilarity q (embedding c')\<rparr> \<and>
        (\<forall>b. best = Some b \<longrightarrow> score b < score r) \<and>
        (\<forall>x\<in>set pre. embedding x \<noteq> [] \<and> t \<le> cosineSimilarity q (embedding x)
            \<longrightarrow> cosineSimilarity q (embedding x) < score r) \<and>
        (\<forall>x\<in>set post. embedding x \<noteq> [] \<and> t \<le> cosineSimilarity q (embedding x)
            \<longrightarrow> cosineSimilarity q (embedding x) \<le> score r)"
      then obtain pre c' post where s: "cs = pre @ c' # post" "embedding c' \<noteq> []"
        "t \<le> cosineSimilarity q (embedding c')"
        "r = \<lparr>id_match = id_cand c', score = cosineSimilarity q (embedding c')\<rparr>"
        "\<forall>b. best = Some b \<longrightarrow> score b < score r"
        "\<forall>x\<in>set pre. embedding x \<noteq> [] \<and> t \<le> cosineSimilarity q (embedding x)
            \<longrightarrow> cosineSimilarity q (embedding x) < score r"
        "\<forall>x\<in>set post. embedding x \<noteq> [] \<and> t \<le> cosineSimilarity q (embedding x)
            \<longrightarrow> cosineSimilarity q (embedding x) \<le> score r"
        by auto
      have pre_c: "embedding c \<noteq> [] \<and> t \<le> ?sc \<longrightarrow> ?sc < score r"
        using False s(5) s(3) s(4) by (cases best) auto
      from s pre_c show ?thesis
        apply (intro disjI2)
        apply (rule exI[of _ "c # pre"], rule exI[of _ c'], rule exI[of _ post])
        by auto
    qed
  qed
qed

text \<open>
  C3: \<open>bestMatch\<close> returns none exactly when no candidate with a non-empty vector scores at
  least the threshold. Otherwise it returns the identifier and score of a candidate with a
  non-empty vector and a score at least the threshold, such that every such candidate
  before it in the list scores strictly less and every such candidate after it scores at
  most as much: the first of the highest-scoring ones.
\<close>

theorem bestMatch_first_highest:
  "(bestMatch q cs t = None \<longleftrightarrow>
      (\<forall>c\<in>set cs. embedding c = [] \<or> cosineSimilarity q (embedding c) < t)) \<and>
   (\<forall>r. bestMatch q cs t = Some r \<longrightarrow>
      (\<exists>pre c post. cs = pre @ c # post \<and> embedding c \<noteq> [] \<and>
        t \<le> cosineSimilarity q (embedding c) \<and>
        r = \<lparr>id_match = id_cand c, score = cosineSimilarity q (embedding c)\<rparr> \<and>
        (\<forall>x\<in>set pre. embedding x \<noteq> [] \<and> t \<le> cosineSimilarity q (embedding x)
            \<longrightarrow> cosineSimilarity q (embedding x) < score r) \<and>
        (\<forall>x\<in>set post. embedding x \<noteq> [] \<and> t \<le> cosineSimilarity q (embedding x)
            \<longrightarrow> cosineSimilarity q (embedding x) \<le> score r)))"
proof (intro conjI allI impI)
  show "bestMatch q cs t = None \<longleftrightarrow>
      (\<forall>c\<in>set cs. embedding c = [] \<or> cosineSimilarity q (embedding c) < t)"
    by (simp add: bestMatch_def bestMatchLoop_None)
next
  fix r assume "bestMatch q cs t = Some r"
  then have "bestMatchLoop q t None cs = Some r" by (simp add: bestMatch_def)
  from bestMatchLoop_Some[OF this]
  show "\<exists>pre c post. cs = pre @ c # post \<and> embedding c \<noteq> [] \<and>
        t \<le> cosineSimilarity q (embedding c) \<and>
        r = \<lparr>id_match = id_cand c, score = cosineSimilarity q (embedding c)\<rparr> \<and>
        (\<forall>x\<in>set pre. embedding x \<noteq> [] \<and> t \<le> cosineSimilarity q (embedding x)
            \<longrightarrow> cosineSimilarity q (embedding x) < score r) \<and>
        (\<forall>x\<in>set post. embedding x \<noteq> [] \<and> t \<le> cosineSimilarity q (embedding x)
            \<longrightarrow> cosineSimilarity q (embedding x) \<le> score r)"
    by blast
qed

theorem bestMatch_first_highest_witness:
  "bestMatch [1, 0]
     [\<lparr>id_cand = ''a'', embedding = [0, 1]\<rparr>, \<lparr>id_cand = ''e'', embedding = []\<rparr>,
      \<lparr>id_cand = ''b'', embedding = [1, 0]\<rparr>, \<lparr>id_cand = ''c'', embedding = [1, 0]\<rparr>] (1 / 2)
     = Some \<lparr>id_match = ''b'', score = 1\<rparr> \<and>
   (\<exists>pre c post.
      [\<lparr>id_cand = ''a'', embedding = [0, 1]\<rparr>, \<lparr>id_cand = ''e'', embedding = []\<rparr>,
       \<lparr>id_cand = ''b'', embedding = [1, 0]\<rparr>, \<lparr>id_cand = ''c'', embedding = [1, 0]\<rparr>] = pre @ c # post \<and>
      embedding c \<noteq> [] \<and> id_cand c = ''b'' \<and> cosineSimilarity [1, 0] (embedding c) = 1 \<and>
      (\<forall>x\<in>set pre. embedding x \<noteq> [] \<and> 1 / 2 \<le> cosineSimilarity [1, 0] (embedding x)
            \<longrightarrow> cosineSimilarity [1, 0] (embedding x) < 1)) \<and>
   bestMatch [1, 0] [\<lparr>id_cand = ''a'', embedding = [0, 1]\<rparr>] (1 / 2) = None"
proof -
  let ?cs = "[\<lparr>id_cand = ''a'', embedding = [0, 1]\<rparr>, \<lparr>id_cand = ''e'', embedding = []\<rparr>,
      \<lparr>id_cand = ''b'', embedding = [1, 0]\<rparr>, \<lparr>id_cand = ''c'', embedding = [1, 0 :: real]\<rparr>]"
  have e: "bestMatch [1, 0] ?cs (1 / 2) = Some \<lparr>id_match = ''b'', score = 1\<rparr>"
    by (simp add: bestMatch_def cosineSimilarity_def)
  have n: "\<forall>c\<in>set [\<lparr>id_cand = ''a'', embedding = [0, 1 :: real]\<rparr>].
             embedding c = [] \<or> cosineSimilarity [1, 0] (embedding c) < 1 / 2"
    by (simp add: cosineSimilarity_def)
  from bestMatch_first_highest[of "[1, 0]" ?cs "1 / 2"] e
  obtain pre c post where s: "?cs = pre @ c # post" "embedding c \<noteq> []"
     "\<lparr>id_match = ''b'', score = 1\<rparr> = \<lparr>id_match = id_cand c, score = cosineSimilarity [1, 0] (embedding c)\<rparr>"
     "\<forall>x\<in>set pre. embedding x \<noteq> [] \<and> 1 / 2 \<le> cosineSimilarity [1, 0] (embedding x)
            \<longrightarrow> cosineSimilarity [1, 0] (embedding x) < score \<lparr>id_match = ''b'', score = 1\<rparr>"
    by blast
  have none: "bestMatch [1, 0] [\<lparr>id_cand = ''a'', embedding = [0, 1]\<rparr>] (1 / 2) = None"
    using bestMatch_first_highest[of "[1, 0]" "[\<lparr>id_cand = ''a'', embedding = [0, 1]\<rparr>]" "1 / 2"] n
    by blast
  from s have "id_cand c = ''b''" "cosineSimilarity [1, 0] (embedding c) = 1" by simp_all
  with s e none show ?thesis
    apply (intro conjI)
      apply assumption
     apply (rule exI[of _ pre], rule exI[of _ c], rule exI[of _ post])
     apply simp
    apply assumption
    done
qed

lemma bestMatchLoop_mono:
  "t' \<le> t \<Longrightarrow>
   (best' = best \<and> (\<forall>b. best = Some b \<longrightarrow> t \<le> score b)) \<or>
   (best = None \<and> (\<exists>b'. best' = Some b' \<and> score b' < t)) \<Longrightarrow>
   bestMatchLoop q t best cs = Some r \<Longrightarrow> bestMatchLoop q t' best' cs = Some r"
proof (induction cs arbitrary: best best')
  case Nil
  then show ?case by auto
next
  case (Cons c cs)
  show ?case
  proof (cases "embedding c = []")
    case True
    with Cons.prems Cons.IH[of best' best] show ?thesis by simp
  next
    case False
    let ?sc = "cosineSimilarity q (embedding c)"
    let ?m = "Some \<lparr>id_match = id_cand c, score = ?sc\<rparr>"
    consider (hi) "t \<le> ?sc" "case best of None \<Rightarrow> True | Some b \<Rightarrow> score b < ?sc"
      | (keep) "t \<le> ?sc" "\<not> (case best of None \<Rightarrow> True | Some b \<Rightarrow> score b < ?sc)"
      | (lo) "?sc < t" by fastforce
    then show ?thesis
    proof cases
      case hi
      then have r: "bestMatchLoop q t ?m cs = Some r" using Cons.prems(3) False by (simp add: Let_def)
      have upd': "t' \<le> ?sc \<and> (case best' of None \<Rightarrow> True | Some b \<Rightarrow> score b < ?sc)"
        using hi Cons.prems(1,2) by (auto split: option.splits)
      have "bestMatchLoop q t' ?m cs = Some r"
        using Cons.IH[OF Cons.prems(1) _ r, of ?m] hi(1) by simp
      with upd' False show ?thesis by (simp add: Let_def)
    next
      case keep
      then obtain b where b: "best = Some b" "?sc \<le> score b" by (cases best) auto
      with Cons.prems(2) have b': "best' = Some b" "t \<le> score b" by auto
      have r: "bestMatchLoop q t best cs = Some r" using Cons.prems(3) False keep b by (simp add: Let_def)
      have "bestMatchLoop q t' best' cs = Some r"
        using Cons.IH[OF Cons.prems(1) _ r, of best'] b b' by simp
      with b b' False show ?thesis by (simp add: Let_def)
    next
      case lo
      then have r: "bestMatchLoop q t best cs = Some r" using Cons.prems(3) False by (simp add: Let_def)
      show ?thesis
      proof (cases "t' \<le> ?sc \<and> (case best' of None \<Rightarrow> True | Some b \<Rightarrow> score b < ?sc)")
        case True
        then have bn: "best = None" using Cons.prems(2) lo by (auto split: option.splits)
        have "bestMatchLoop q t' ?m cs = Some r"
          using Cons.IH[OF Cons.prems(1) _ r, of ?m] bn lo by simp
        with True False show ?thesis by (simp add: Let_def)
      next
        case F: False
        have "bestMatchLoop q t' best' cs = Some r"
          using Cons.IH[OF Cons.prems(1) Cons.prems(2) r] .
        with F False show ?thesis by (auto simp add: Let_def)
      qed
    qed
  qed
qed

text \<open>
  C8: a match at threshold \<open>t\<close> is also the match at every lower threshold \<open>t'\<close>, with the
  same candidate and score.
\<close>

theorem bestMatch_threshold_monotone:
  "t' \<le> t \<Longrightarrow> bestMatch q cs t = Some r \<Longrightarrow> bestMatch q cs t' = Some r"
  unfolding bestMatch_def by (rule bestMatchLoop_mono[where best = None and best' = None]) auto

theorem bestMatch_threshold_monotone_witness:
  "(1 / 2 :: real) \<le> 4 / 5 \<and>
   bestMatch [1] [\<lparr>id_cand = ''a'', embedding = [1]\<rparr>] (4 / 5) = Some \<lparr>id_match = ''a'', score = 1\<rparr> \<and>
   bestMatch [1] [\<lparr>id_cand = ''a'', embedding = [1]\<rparr>] (1 / 2) = Some \<lparr>id_match = ''a'', score = 1\<rparr>"
proof -
  have h: "(1 / 2 :: real) \<le> 4 / 5" by simp
  have e: "bestMatch [1] [\<lparr>id_cand = ''a'', embedding = [1]\<rparr>] (4 / 5) = Some \<lparr>id_match = ''a'', score = 1\<rparr>"
    by (simp add: bestMatch_def cosineSimilarity_def)
  from bestMatch_threshold_monotone[OF h e] h e show ?thesis by simp
qed

text \<open>
  A candidate whose vector has another length than the query scores 0 and is returned at
  threshold 0.
\<close>

theorem bestMatch_mismatched_counterexample:
  "length [1, 2 :: real] \<noteq> length [1 :: real] \<and>
   bestMatch [1] [\<lparr>id_cand = ''x'', embedding = [1, 2]\<rparr>] 0 = Some \<lparr>id_match = ''x'', score = 0\<rparr>"
  by (simp add: bestMatch_def cosineSimilarity_def)

lemma cosineSimilarity_degenerate:
  "length a \<noteq> length b \<Longrightarrow> cosineSimilarity a b = 0"
  by (simp add: cosineSimilarity_def)

lemma bestMatchLoop_origin:
  "bestMatchLoop q t best cs = Some r \<Longrightarrow>
     best = Some r \<or>
     (\<exists>c\<in>set cs. id_cand c = id_match r \<and> cosineSimilarity q (embedding c) = score r \<and>
        embedding c \<noteq> [] \<and> t \<le> score r)"
proof (induction cs arbitrary: best)
  case Nil
  then show ?case by simp
next
  case (Cons c cs)
  let ?m = "\<lparr>id_match = id_cand c, score = cosineSimilarity q (embedding c)\<rparr>"
  from Cons.prems consider
      (upd) "embedding c \<noteq> []" "t \<le> cosineSimilarity q (embedding c)"
            "bestMatchLoop q t (Some ?m) cs = Some r"
    | (keep) "bestMatchLoop q t best cs = Some r"
    by (auto simp: Let_def split: if_splits)
  then show ?case
  proof cases
    case upd
    from Cons.IH[OF upd(3)] upd(1,2) show ?thesis by auto
  next
    case keep
    from Cons.IH[OF keep] show ?thesis by auto
  qed
qed

text \<open>
  C7, as the code has it: a candidate with an empty vector is never returned, and at a
  positive threshold the returned match comes from a candidate whose vector is not empty
  and has the length of the query.
\<close>

theorem bestMatch_degenerate_excluded:
  "bestMatch q [\<lparr>id_cand = x, embedding = []\<rparr>] t = None \<and>
   (\<forall>r. bestMatch q cs t = Some r \<longrightarrow>
      (\<exists>c\<in>set cs. id_cand c = id_match r \<and> cosineSimilarity q (embedding c) = score r \<and>
         embedding c \<noteq> [] \<and> (0 < t \<longrightarrow> length (embedding c) = length q)))"
proof (intro conjI allI impI)
  show "bestMatch q [\<lparr>id_cand = x, embedding = []\<rparr>] t = None" by (simp add: bestMatch_def)
next
  fix r assume "bestMatch q cs t = Some r"
  then have "bestMatchLoop q t None cs = Some r" by (simp add: bestMatch_def)
  from bestMatchLoop_origin[OF this] obtain c where c: "c \<in> set cs" "id_cand c = id_match r"
    "cosineSimilarity q (embedding c) = score r" "embedding c \<noteq> []" "t \<le> score r" by auto
  have "0 < t \<longrightarrow> length (embedding c) = length q"
    using c(3,5) cosineSimilarity_degenerate[of q "embedding c"] by fastforce
  with c show "\<exists>c\<in>set cs. id_cand c = id_match r \<and> cosineSimilarity q (embedding c) = score r \<and>
         embedding c \<noteq> [] \<and> (0 < t \<longrightarrow> length (embedding c) = length q)" by blast
qed

theorem bestMatch_degenerate_excluded_witness:
  "bestMatch [1] [\<lparr>id_cand = ''x'', embedding = []\<rparr>] (1 / 2) = None \<and>
   bestMatch [1] [\<lparr>id_cand = ''y'', embedding = [1, 2]\<rparr>, \<lparr>id_cand = ''z'', embedding = [1]\<rparr>] (1 / 2)
      = Some \<lparr>id_match = ''z'', score = 1\<rparr> \<and>
   (\<exists>c\<in>set [\<lparr>id_cand = ''y'', embedding = [1, 2]\<rparr>, \<lparr>id_cand = ''z'', embedding = [1]\<rparr>].
       id_cand c = ''z'' \<and> embedding c \<noteq> [] \<and> length (embedding c) = length [1 :: real])"
proof -
  have e: "bestMatch [1] [\<lparr>id_cand = ''y'', embedding = [1, 2]\<rparr>, \<lparr>id_cand = ''z'', embedding = [1]\<rparr>] (1 / 2)
      = Some \<lparr>id_match = ''z'', score = 1\<rparr>"
    by (simp add: bestMatch_def cosineSimilarity_def)
  from bestMatch_degenerate_excluded[of "[1]" "''x''" "1 / 2"
      "[\<lparr>id_cand = ''y'', embedding = [1, 2]\<rparr>, \<lparr>id_cand = ''z'', embedding = [1]\<rparr>]"] e
  show ?thesis by simp
qed

section \<open>The recount\<close>

lemma recountSubtree_Suc:
  "recountSubtree (Suc d) ix k =
     (case map_of (nodes ix) k of
        None \<Rightarrow> Some (ix, 0)
      | Some node \<Rightarrow>
          (case fold (recountStep d) (children node) (Some (ix, length (promptIndices node))) of
             None \<Rightarrow> None
           | Some (ix1, tot) \<Rightarrow>
               Some (ix1\<lparr>nodes := AList.map_entry k (\<lambda>n. n\<lparr>promptCount := tot\<rparr>) (nodes ix1)\<rparr>,
                     tot)))"
  unfolding recountStep_def[abs_def] by simp

declare recountSubtree.simps(2) [simp del]

lemma fold_recountStep_None: "fold (recountStep d) cs None = None"
  by (induction cs) (simp_all add: recountStep_def)

lemma onlyCounts_refl: "onlyCounts ix ix"
  unfolding onlyCounts_def
proof (intro conjI list_all2_refl)
  fix a :: "string \<times> OutlineNode"
  have "snd a = (snd a)\<lparr>promptCount := promptCount (snd a)\<rparr>" by simp
  then show "\<exists>c. snd a = (snd a)\<lparr>promptCount := c\<rparr>" ..
qed simp_all

lemma onlyCounts_trans:
  assumes "onlyCounts a b" and "onlyCounts b c"
  shows "onlyCounts a c"
proof -
  let ?R = "\<lambda>(a :: string \<times> OutlineNode) (b :: string \<times> OutlineNode).
              fst b = fst a \<and> (\<exists>c. snd b = (snd a)\<lparr>promptCount := c\<rparr>)"
  have ab: "list_all2 ?R (nodes a) (nodes b)" and bc: "list_all2 ?R (nodes b) (nodes c)"
    using assms by (simp_all add: onlyCounts_def)
  have "list_all2 ?R (nodes a) (nodes c)"
  proof (rule list_all2_trans[OF _ ab bc])
    fix x y z :: "string \<times> OutlineNode"
    assume "?R x y" and "?R y z"
    then obtain c1 c2 where "fst y = fst x" "fst z = fst y"
      "snd y = (snd x)\<lparr>promptCount := c1\<rparr>" "snd z = (snd y)\<lparr>promptCount := c2\<rparr>" by auto
    then have "fst z = fst x" "snd z = (snd x)\<lparr>promptCount := c2\<rparr>" by simp_all
    then show "?R x z" by blast
  qed
  with assms show ?thesis by (simp add: onlyCounts_def)
qed

lemma list_all2_map_entry:
  fixes xs :: "(string \<times> OutlineNode) list"
  shows "list_all2 (\<lambda>a b. fst b = fst a \<and> (\<exists>c. snd b = (snd a)\<lparr>promptCount := c\<rparr>))
     xs (AList.map_entry k (\<lambda>n. n\<lparr>promptCount := t\<rparr>) xs)"
proof (induction xs)
  case Nil
  then show ?case by simp
next
  case (Cons a xs)
  obtain j n where a: "a = (j, n)" by (cases a)
  have ex: "\<And>m :: OutlineNode. \<exists>c. m = m\<lparr>promptCount := c\<rparr>"
  proof -
    fix m :: OutlineNode
    have "m = m\<lparr>promptCount := promptCount m\<rparr>" by simp
    then show "\<exists>c. m = m\<lparr>promptCount := c\<rparr>" ..
  qed
  then have r: "list_all2 (\<lambda>a b. fst b = fst a \<and> (\<exists>c. snd b = (snd a)\<lparr>promptCount := c\<rparr>)) xs xs"
    by (simp add: list_all2_same)
  show ?case using Cons.IH r ex[of n] by (auto simp: a)
qed

lemma onlyCounts_map_entry:
  "onlyCounts ix (ix\<lparr>nodes := AList.map_entry k (\<lambda>n. n\<lparr>promptCount := t\<rparr>) (nodes ix)\<rparr>)"
  by (simp add: onlyCounts_def list_all2_map_entry)

lemma list_all2_map_of:
  "list_all2 (\<lambda>a b. fst b = fst a \<and> (\<exists>c. snd b = (snd a)\<lparr>promptCount := c\<rparr>)) xs ys \<Longrightarrow>
   rel_option (\<lambda>n n'. \<exists>c. n' = n\<lparr>promptCount := c\<rparr>) (map_of xs j) (map_of ys j)"
  by (induction xs ys rule: list_all2_induct) auto

lemma onlyCounts_map_of:
  "onlyCounts ix ix' \<Longrightarrow>
   rel_option (\<lambda>n n'. \<exists>c. n' = n\<lparr>promptCount := c\<rparr>) (map_of (nodes ix) j) (map_of (nodes ix') j)"
  by (simp add: onlyCounts_def list_all2_map_of)

lemma onlyCounts_payload: "onlyCounts ix ix' \<Longrightarrow> payload ix' = payload ix"
proof (rule ext)
  fix j assume "onlyCounts ix ix'"
  from onlyCounts_map_of[OF this, of j] show "payload ix' j = payload ix j"
    by (cases "map_of (nodes ix) j"; cases "map_of (nodes ix') j") (auto simp: payload_def)
qed

lemma onlyCounts_keys: "onlyCounts ix ix' \<Longrightarrow> map fst (nodes ix') = map fst (nodes ix)"
  unfolding onlyCounts_def
proof (elim conjE)
  assume "list_all2 (\<lambda>a b. fst b = fst a \<and> (\<exists>c. snd b = (snd a)\<lparr>promptCount := c\<rparr>)) (nodes ix) (nodes ix')"
  then show ?thesis by (induction rule: list_all2_induct) auto
qed

lemmas [simp del] = returns.simps(2) subtotal.simps(2) visited.simps(2)

lemma returns_Suc: "returns d P k \<Longrightarrow> returns (Suc d) P k"
proof (induction d arbitrary: k)
  case 0
  then show ?case by simp
next
  case (Suc d)
  show ?case
  proof (cases "P k")
    case None
    then show ?thesis by (simp add: returns.simps(2))
  next
    case (Some a)
    obtain cs m where a: "a = (cs, m)" by (cases a)
    from Suc.prems Some a have "\<forall>c\<in>set cs. returns d P c" by (simp add: returns.simps(2))
    then have "\<forall>c\<in>set cs. returns (Suc d) P c" using Suc.IH by blast
    then show ?thesis using Some a by (simp add: returns.simps(2)[of "Suc d"])
  qed
qed

lemma returns_mono: "returns d P k \<Longrightarrow> d \<le> e \<Longrightarrow> returns e P k"
proof (induction e)
  case 0
  then show ?case by simp
next
  case (Suc e)
  show ?case
  proof (cases "d = Suc e")
    case True
    with Suc.prems show ?thesis by simp
  next
    case False
    with Suc.prems have "d \<le> e" by simp
    from Suc.IH[OF Suc.prems(1) this] show ?thesis by (rule returns_Suc)
  qed
qed

lemma subtotal_Suc: "returns d P k \<Longrightarrow> subtotal (Suc d) P k = subtotal d P k"
proof (induction d arbitrary: k)
  case 0
  then show ?case by simp
next
  case (Suc d)
  show ?case
  proof (cases "P k")
    case None
    then show ?thesis by (simp add: subtotal.simps(2))
  next
    case (Some a)
    obtain cs m where a: "a = (cs, m)" by (cases a)
    from Suc.prems Some a have "\<forall>c\<in>set cs. returns d P c" by (simp add: returns.simps(2))
    then have "sum_list (map (subtotal (Suc d) P) cs) = sum_list (map (subtotal d P) cs)"
      using Suc.IH by (intro arg_cong[where f = sum_list] map_cong) auto
    then show ?thesis using Some a
      by (simp add: subtotal.simps(2)[of "Suc d"] subtotal.simps(2)[of d P k])
  qed
qed

lemma subtotal_stable: "returns d P k \<Longrightarrow> d \<le> e \<Longrightarrow> subtotal e P k = subtotal d P k"
proof (induction e)
  case 0
  then show ?case by simp
next
  case (Suc e)
  show ?case
  proof (cases "d = Suc e")
    case True
    then show ?thesis by simp
  next
    case False
    with Suc.prems have le: "d \<le> e" by simp
    from returns_mono[OF Suc.prems(1) le] have "subtotal (Suc e) P k = subtotal e P k"
      by (rule subtotal_Suc)
    with Suc.IH[OF Suc.prems(1) le] show ?thesis by simp
  qed
qed

lemma visited_Suc: "returns d P k \<Longrightarrow> visited (Suc d) P k = visited d P k"
proof (induction d arbitrary: k)
  case 0
  then show ?case by simp
next
  case (Suc d)
  show ?case
  proof (cases "P k")
    case None
    then show ?thesis by (simp add: visited.simps(2))
  next
    case (Some a)
    obtain cs m where a: "a = (cs, m)" by (cases a)
    from Suc.prems Some a have "\<forall>c\<in>set cs. returns d P c" by (simp add: returns.simps(2))
    then have "(\<Union>c\<in>set cs. visited (Suc d) P c) = (\<Union>c\<in>set cs. visited d P c)"
      using Suc.IH by auto
    then show ?thesis using Some a
      by (simp add: visited.simps(2)[of "Suc d"] visited.simps(2)[of d P k])
  qed
qed

lemma visited_stable: "returns d P k \<Longrightarrow> d \<le> e \<Longrightarrow> visited e P k = visited d P k"
proof (induction e)
  case 0
  then show ?case by simp
next
  case (Suc e)
  show ?case
  proof (cases "d = Suc e")
    case True
    then show ?thesis by simp
  next
    case False
    with Suc.prems have le: "d \<le> e" by simp
    from returns_mono[OF Suc.prems(1) le] have "visited (Suc e) P k = visited e P k"
      by (rule visited_Suc)
    with Suc.IH[OF Suc.prems(1) le] show ?thesis by simp
  qed
qed

lemma visited_returns: "j \<in> visited d P k \<Longrightarrow> returns d P k \<Longrightarrow> returns d P j"
proof (induction d arbitrary: k)
  case 0
  then show ?case by simp
next
  case (Suc d)
  show ?case
  proof (cases "P k")
    case None
    with Suc.prems show ?thesis by (simp add: visited.simps(2))
  next
    case (Some a)
    obtain cs m where a: "a = (cs, m)" by (cases a)
    show ?thesis
    proof (cases "j = k")
      case True
      with Suc.prems show ?thesis by simp
    next
      case False
      with Suc.prems(1) Some a obtain c where c: "c \<in> set cs" "j \<in> visited d P c"
        by (auto simp: visited.simps(2))
      with Suc.prems(2) Some a have "returns d P c" by (simp add: returns.simps(2))
      from Suc.IH[OF c(2) this] show ?thesis by (rule returns_Suc)
    qed
  qed
qed

lemma visited_exists: "j \<in> visited d P k \<Longrightarrow> P j \<noteq> None"
proof (induction d arbitrary: k)
  case 0
  then show ?case by simp
next
  case (Suc d)
  then show ?case by (cases "P k") (auto simp: visited.simps(2) split: if_splits)
qed

lemma counts_map_entry:
  "counts (ix\<lparr>nodes := AList.map_entry k (\<lambda>n. n\<lparr>promptCount := t\<rparr>) (nodes ix)\<rparr>) j =
     (if j = k then map_option (\<lambda>_. t) (counts ix j) else counts ix j)"
  by (cases "map_of (nodes ix) k") (simp_all add: counts_def map_of_map_entry)

lemma recountStep_Some:
  "recountSubtree d ix1 c = Some (ix2, s) \<Longrightarrow>
   recountStep d c (Some (ix1, a)) = Some (ix2, a + s)"
  by (simp add: recountStep_def)

lemma fold_recountStep_returns:
  assumes IH: "\<And>ix k. returns d (payload ix) k \<Longrightarrow>
      \<exists>ix'. recountSubtree d ix k = Some (ix', subtotal d (payload ix) k) \<and> onlyCounts ix ix' \<and>
        (\<forall>j. counts ix' j = (if j \<in> visited d (payload ix) k
                               then Some (subtotal d (payload ix) j) else counts ix j))"
  shows "payload ix1 = P \<Longrightarrow> \<forall>c\<in>set cs. returns d P c \<Longrightarrow>
     \<exists>ix2. fold (recountStep d) cs (Some (ix1, a)) = Some (ix2, a + sum_list (map (subtotal d P) cs)) \<and>
       onlyCounts ix1 ix2 \<and>
       (\<forall>j. counts ix2 j = (if j \<in> (\<Union>c\<in>set cs. visited d P c)
                              then Some (subtotal d P j) else counts ix1 j))"
proof (induction cs arbitrary: ix1 a)
  case Nil
  then show ?case by (simp add: onlyCounts_refl)
next
  case (Cons c cs)
  from Cons.prems have rc: "returns d (payload ix1) c" by simp
  from IH[OF rc] Cons.prems(1) obtain ix' where
    s1: "recountSubtree d ix1 c = Some (ix', subtotal d P c)" and
    o1: "onlyCounts ix1 ix'" and
    c1: "\<forall>j. counts ix' j = (if j \<in> visited d P c then Some (subtotal d P j) else counts ix1 j)"
    by auto
  have p1: "payload ix' = P" using onlyCounts_payload[OF o1] Cons.prems(1) by simp
  from Cons.prems(2) have rest: "\<forall>c\<in>set cs. returns d P c" by simp
  from Cons.IH[OF p1 rest, of "a + subtotal d P c"] obtain ix2 where
    s2: "fold (recountStep d) cs (Some (ix', a + subtotal d P c)) =
           Some (ix2, a + subtotal d P c + sum_list (map (subtotal d P) cs))" and
    o2: "onlyCounts ix' ix2" and
    c2: "\<forall>j. counts ix2 j = (if j \<in> (\<Union>c\<in>set cs. visited d P c)
                               then Some (subtotal d P j) else counts ix' j)"
    by auto
  have "fold (recountStep d) (c # cs) (Some (ix1, a)) =
          Some (ix2, a + sum_list (map (subtotal d P) (c # cs)))"
    using s2 recountStep_Some[OF s1, of a] by (simp add: add.assoc)
  moreover have "onlyCounts ix1 ix2" using o1 o2 by (rule onlyCounts_trans)
  moreover have "\<forall>j. counts ix2 j = (if j \<in> (\<Union>c\<in>set (c # cs). visited d P c)
                              then Some (subtotal d P j) else counts ix1 j)"
    using c1 c2 by auto
  ultimately show ?case by blast
qed

lemma recountSubtree_returns:
  "returns d (payload ix) k \<Longrightarrow>
     \<exists>ix'. recountSubtree d ix k = Some (ix', subtotal d (payload ix) k) \<and> onlyCounts ix ix' \<and>
       (\<forall>j. counts ix' j = (if j \<in> visited d (payload ix) k
                              then Some (subtotal d (payload ix) j) else counts ix j))"
proof (induction d arbitrary: ix k)
  case 0
  then show ?case by simp
next
  case (Suc d)
  let ?P = "payload ix"
  show ?case
  proof (cases "map_of (nodes ix) k")
    case None
    then have pk: "?P k = None" by (simp add: payload_def)
    have "recountSubtree (Suc d) ix k = Some (ix, subtotal (Suc d) ?P k)"
      using None pk by (simp add: recountSubtree_Suc subtotal.simps(2))
    moreover have "visited (Suc d) ?P k = {}" using pk by (simp add: visited.simps(2))
    ultimately show ?thesis using onlyCounts_refl[of ix] by auto
  next
    case (Some node)
    then have pk: "?P k = Some (children node, length (promptIndices node))"
      by (simp add: payload_def)
    with Suc.prems have kids: "\<forall>c\<in>set (children node). returns d ?P c"
      by (simp add: returns.simps(2))
    from fold_recountStep_returns[of d ix ?P "children node" "length (promptIndices node)",
        OF Suc.IH refl kids]
    obtain ix2 where
      f: "fold (recountStep d) (children node) (Some (ix, length (promptIndices node))) =
            Some (ix2, length (promptIndices node) + sum_list (map (subtotal d ?P) (children node)))" and
      o: "onlyCounts ix ix2" and
      c: "\<forall>j. counts ix2 j = (if j \<in> (\<Union>c\<in>set (children node). visited d ?P c)
                               then Some (subtotal d ?P j) else counts ix j)"
      by blast
    let ?tot = "length (promptIndices node) + sum_list (map (subtotal d ?P) (children node))"
    let ?ix' = "ix2\<lparr>nodes := AList.map_entry k (\<lambda>n. n\<lparr>promptCount := ?tot\<rparr>) (nodes ix2)\<rparr>"
    have tot: "subtotal (Suc d) ?P k = ?tot" using pk by (simp add: subtotal.simps(2))
    have run: "recountSubtree (Suc d) ix k = Some (?ix', subtotal (Suc d) ?P k)"
      using Some f tot by (simp add: recountSubtree_Suc)
    have oc: "onlyCounts ix ?ix'"
      using o onlyCounts_map_entry[of ix2 k ?tot] by (rule onlyCounts_trans)
    have vis: "visited (Suc d) ?P k = insert k (\<Union>c\<in>set (children node). visited d ?P c)"
      using pk by (simp add: visited.simps(2))
    have ck: "counts ix2 k \<noteq> None" using c Some by (simp add: counts_def)
    have cnt: "counts ?ix' j = (if j \<in> visited (Suc d) ?P k
                              then Some (subtotal (Suc d) ?P j) else counts ix j)" for j
    proof (cases "j = k")
      case True
      then show ?thesis using ck tot vis by (auto simp: counts_map_entry)
    next
      case False
      show ?thesis
      proof (cases "j \<in> (\<Union>c\<in>set (children node). visited d ?P c)")
        case True
        then obtain c' where c': "c' \<in> set (children node)" "j \<in> visited d ?P c'" by auto
        with kids have "returns d ?P c'" by simp
        from visited_returns[OF c'(2) this] have "subtotal (Suc d) ?P j = subtotal d ?P j"
          by (rule subtotal_Suc)
        then show ?thesis using True False c vis by (simp add: counts_map_entry)
      next
        case F: False
        then show ?thesis using False c vis by (simp add: counts_map_entry)
      qed
    qed
    from run oc cnt show ?thesis by blast
  qed
qed

lemma fold_recountStep_diverges:
  assumes IH: "\<And>ix k. \<not> returns d (payload ix) k \<Longrightarrow> recountSubtree d ix k = None"
  shows "payload ix1 = P \<Longrightarrow> \<exists>c\<in>set cs. \<not> returns d P c \<Longrightarrow>
     fold (recountStep d) cs (Some (ix1, a)) = None"
proof (induction cs arbitrary: ix1 a)
  case Nil
  then show ?case by simp
next
  case (Cons c cs)
  show ?case
  proof (cases "returns d P c")
    case True
    with Cons.prems(1) have "returns d (payload ix1) c" by simp
    from recountSubtree_returns[OF this] Cons.prems(1) obtain ix' where
      s1: "recountSubtree d ix1 c = Some (ix', subtotal d P c)" and o1: "onlyCounts ix1 ix'"
      by auto
    have p1: "payload ix' = P" using onlyCounts_payload[OF o1] Cons.prems(1) by simp
    from True Cons.prems(2) have "\<exists>c\<in>set cs. \<not> returns d P c" by auto
    from Cons.IH[OF p1 this] show ?thesis using recountStep_Some[OF s1, of a] by simp
  next
    case False
    with Cons.prems(1) have "\<not> returns d (payload ix1) c" by simp
    from IH[OF this] have "recountStep d c (Some (ix1, a)) = None"
      by (simp add: recountStep_def)
    then show ?thesis by (simp add: fold_recountStep_None)
  qed
qed

lemma recountSubtree_diverges:
  "\<not> returns d (payload ix) k \<Longrightarrow> recountSubtree d ix k = None"
proof (induction d arbitrary: ix k)
  case 0
  then show ?case by simp
next
  case (Suc d)
  from Suc.prems obtain cs m where pk: "payload ix k = Some (cs, m)"
    by (cases "payload ix k") (auto simp: returns.simps(2))
  then obtain node where n: "map_of (nodes ix) k = Some node" "cs = children node"
    by (auto simp: payload_def)
  from Suc.prems pk have "\<exists>c\<in>set (children node). \<not> returns d (payload ix) c"
    using n by (simp add: returns.simps(2))
  from fold_recountStep_diverges[of d ix "payload ix" "children node", OF Suc.IH refl this]
  show ?case using n by (simp add: recountSubtree_Suc)
qed

lemma recountSubtree_None_iff:
  "recountSubtree d ix k = None \<longleftrightarrow> \<not> returns d (payload ix) k"
  using recountSubtree_returns[of d ix k] recountSubtree_diverges[of d ix k] by auto

section \<open>The paths of classifyPrompt\<close>

lemma updatePromptCounts_Some:
  assumes "updatePromptCounts d J = Some ix1"
  shows "onlyCounts J ix1" and "returns d (payload J) ''root''"
    and "\<And>j. counts ix1 j = (if j \<in> visited d (payload J) ''root''
                               then Some (subtotal d (payload J) j) else counts J j)"
proof -
  from assms obtain t where r: "recountSubtree d J ''root'' = Some (ix1, t)"
    by (auto simp: updatePromptCounts_def)
  then show ret: "returns d (payload J) ''root''"
    using recountSubtree_None_iff[of d J "''root''"] by auto
  from recountSubtree_returns[OF ret] r
  show "onlyCounts J ix1"
    and "\<And>j. counts ix1 j = (if j \<in> visited d (payload J) ''root''
                               then Some (subtotal d (payload J) j) else counts J j)"
    by auto
qed

lemma updatePromptCounts_returns:
  "returns d (payload J) ''root'' \<Longrightarrow> \<exists>ix1. updatePromptCounts d J = Some ix1"
  using recountSubtree_returns[of d J "''root''"] by (auto simp: updatePromptCounts_def)

lemma bestMatch_id:
  "bestMatch q cs t = Some m \<Longrightarrow> id_match m \<in> id_cand ` set cs"
  using bestMatchLoop_origin[of q t None cs m] by (force simp: bestMatch_def)

lemma getChildCandidates_id:
  assumes "i \<in> id_cand ` set (getChildCandidates ix pid rk)"
  shows "map_of (embeddings ix) i \<noteq> None"
    and "\<exists>n. map_of (nodes ix) i = Some n \<and> (\<forall>r. rk = Some r \<longrightarrow> rank n = r)"
    and "\<exists>pn. map_of (nodes ix) pid = Some pn \<and> i \<in> set (children pn)"
proof -
  from assms obtain pn where pn: "map_of (nodes ix) pid = Some pn"
    by (cases "map_of (nodes ix) pid") (auto simp: getChildCandidates_def)
  with assms have
    "i \<in> set (filter (\<lambda>i. (case map_of (nodes ix) i of
                             None \<Rightarrow> False
                           | Some n \<Rightarrow> (case rk of None \<Rightarrow> True | Some r \<Rightarrow> rank n = r))
                          \<and> map_of (embeddings ix) i \<noteq> None) (children pn))"
    by (simp add: getChildCandidates_def image_image)
  then have m: "i \<in> set (children pn)" "map_of (embeddings ix) i \<noteq> None"
    "case map_of (nodes ix) i of None \<Rightarrow> False
     | Some n \<Rightarrow> (case rk of None \<Rightarrow> True | Some r \<Rightarrow> rank n = r)"
    by simp_all
  from m(2) show "map_of (embeddings ix) i \<noteq> None" .
  from m(3) show "\<exists>n. map_of (nodes ix) i = Some n \<and> (\<forall>r. rk = Some r \<longrightarrow> rank n = r)"
    by (cases "map_of (nodes ix) i") auto
  from pn m(1) show "\<exists>pn. map_of (nodes ix) pid = Some pn \<and> i \<in> set (children pn)" by simp
qed

lemma getAllEmbeddedCandidates_id:
  "i \<in> id_cand ` set (getAllEmbeddedCandidates ix) \<Longrightarrow> map_of (embeddings ix) i \<noteq> None"
  by (auto simp: getAllEmbeddedCandidates_def weak_map_of_SomeI)

lemma spawnNode_id: "id_node (fst (spawnNode env ix pid lbl rnk emb)) = newNodeId env"
  by (simp add: spawnNode_def Let_def)

lemma classifyPrompt_cases [consumes 1, case_names hit threw attach spawn]:
  assumes run: "classifyPrompt d env ix p s = Some (out, ix', calls)"
  obtains
    (hit) cached ix1 where
      "map_of (cache ix) (hashPrompt (fullText p)) = Some cached"
      "updatePromptCounts d (insertPromptIntoNode env ix (nodeId cached) (index p)) = Some ix1"
      "out = Returned \<lparr>nodeId = nodeId cached, confidence = confidence cached, isNewNode = False\<rparr>"
      "ix' = ix1" "calls = []"
  | (threw) err where
      "map_of (cache ix) (hashPrompt (fullText p)) = None"
      "embedText env 0 (firstSentence p) = Inl err"
      "out = Threw (''[pipeline] Embed failed: '' @ err)" "ix' = ix"
      "calls = [GEMINI_EMBED (firstSentence p)]"
  | (attach) nid conf ix1 where
      "map_of (cache ix) (hashPrompt (fullText p)) = None"
      "map_of (embeddings ix) nid \<noteq> None"
      "updatePromptCounts d (insertPromptIntoNode env ix nid (index p)) = Some ix1"
      "out = Returned \<lparr>nodeId = nid, confidence = conf, isNewNode = False\<rparr>"
      "ix' = ix1\<lparr>cache := AList.update (hashPrompt (fullText p))
                           \<lparr>nodeId = nid, confidence = conf\<rparr> (cache ix1)\<rparr>"
  | (spawn) pid rnk e conf ix1 k where
      "map_of (cache ix) (hashPrompt (fullText p)) = None"
      "(pid = ''root'' \<and> rnk = 1) \<or>
       (rnk = 2 \<and> (\<exists>pn. map_of (nodes ix) pid = Some pn \<and> rank pn = 1))"
      "updatePromptCounts d
         (insertPromptIntoNode env
            (snd (spawnNode env ix pid (fst (fetchLabel env k (firstSentence p) ix)) rnk (Some e)))
            (newNodeId env) (index p)) = Some ix1"
      "out = Returned \<lparr>nodeId = newNodeId env, confidence = conf, isNewNode = True\<rparr>"
      "ix' = ix1\<lparr>cache := AList.update (hashPrompt (fullText p))
                           \<lparr>nodeId = newNodeId env, confidence = conf\<rparr> (cache ix1)\<rparr>"
proof -
  let ?h = "hashPrompt (fullText p)"
  have commitE: "\<And>J nid conf isNew cs. returned (commit d env J ?h nid conf isNew (index p)) cs = Some (out, ix', calls) \<Longrightarrow>
      \<exists>ix1. updatePromptCounts d (insertPromptIntoNode env J nid (index p)) = Some ix1 \<and>
        out = Returned \<lparr>nodeId = nid, confidence = conf, isNewNode = isNew\<rparr> \<and>
        ix' = ix1\<lparr>cache := AList.update ?h \<lparr>nodeId = nid, confidence = conf\<rparr> (cache ix1)\<rparr>"
    by (auto simp: returned_def commit_def split: option.splits)
  have step6E: "\<And>cs. step6 d env ix p ?h e cs = Some (out, ix', calls) \<Longrightarrow>
      map_of (cache ix) ?h = None \<Longrightarrow> thesis" for e
  proof -
    fix cs assume a: "step6 d env ix p ?h e cs = Some (out, ix', calls)"
      and miss: "map_of (cache ix) ?h = None"
    obtain lbl req where fl: "fetchLabel env (length cs) (firstSentence p) ix = (lbl, req)"
      by (cases "fetchLabel env (length cs) (firstSentence p) ix")
    obtain hd J where sp: "spawnNode env ix ''root'' lbl 1 (Some e) = (hd, J)"
      by (cases "spawnNode env ix ''root'' lbl 1 (Some e)")
    have hid: "id_node hd = newNodeId env" using spawnNode_id[of env ix "''root''" lbl 1 "Some e"] sp by simp
    from a fl sp have "returned (commit d env J ?h (id_node hd) 0 True (index p)) (cs @ [req]) = Some (out, ix', calls)"
      by (simp add: step6_def)
    from commitE[OF this] hid obtain ix1 where
      "updatePromptCounts d (insertPromptIntoNode env J (newNodeId env) (index p)) = Some ix1"
      "out = Returned \<lparr>nodeId = newNodeId env, confidence = 0, isNewNode = True\<rparr>"
      "ix' = ix1\<lparr>cache := AList.update ?h \<lparr>nodeId = newNodeId env, confidence = 0\<rparr> (cache ix1)\<rparr>"
      by auto
    then show thesis
      using spawn[of "''root''" 1 "length cs" e ix1 0] miss fl sp by simp
  qed
  show thesis
  proof (cases "map_of (cache ix) ?h")
    case (Some cached)
    with run show thesis
      by (auto simp: classifyPrompt_def Let_def split: option.splits intro: hit)
  next
    case None
    note miss = None
    show thesis
    proof (cases "embedText env 0 (firstSentence p)")
      case (Inl err)
      with run miss show thesis by (auto simp: classifyPrompt_def Let_def intro: threw)
    next
      case (Inr v)
      show thesis
      proof (cases "bestMatch v (getChildCandidates ix ''root'' (Some 1)) (thresholdHigh s)")
        case (Some hit1)
        from bestMatch_id[OF Some] have h1: "id_match hit1 \<in> id_cand ` set (getChildCandidates ix ''root'' (Some 1))" .
        from getChildCandidates_id(2)[OF h1] obtain pn where
          pn: "map_of (nodes ix) (id_match hit1) = Some pn" "rank pn = 1" by auto
        show thesis
        proof (cases "bestMatch v (getChildCandidates ix (id_match hit1) (Some 2)) (thresholdHigh s)")
          case (Some hit2)
          from bestMatch_id[OF Some] have "id_match hit2 \<in> id_cand ` set (getChildCandidates ix (id_match hit1) (Some 2))" .
          from getChildCandidates_id(1)[OF this] have e2: "map_of (embeddings ix) (id_match hit2) \<noteq> None" .
          from run miss Inr \<open>bestMatch v (getChildCandidates ix ''root'' (Some 1)) (thresholdHigh s) = Some hit1\<close> Some
          have "returned (commit d env ix ?h (id_match hit2) (score hit2) False (index p))
                  [GEMINI_EMBED (firstSentence p)] = Some (out, ix', calls)"
            by (simp add: classifyPrompt_def Let_def)
          from commitE[OF this] show thesis using attach[of "id_match hit2" _ "score hit2"] miss e2 by auto
        next
          case None
          obtain lbl req where fl: "fetchLabel env 1 (firstSentence p) ix = (lbl, req)"
            by (cases "fetchLabel env 1 (firstSentence p) ix")
          obtain sub J where sp: "spawnNode env ix (id_match hit1) lbl 2 (Some v) = (sub, J)"
            by (cases "spawnNode env ix (id_match hit1) lbl 2 (Some v)")
          have sid: "id_node sub = newNodeId env"
            using spawnNode_id[of env ix "id_match hit1" lbl 2 "Some v"] sp by simp
          from run miss Inr \<open>bestMatch v (getChildCandidates ix ''root'' (Some 1)) (thresholdHigh s) = Some hit1\<close> None fl sp
          have "returned (commit d env J ?h (id_node sub) (score hit1) True (index p))
                  ([GEMINI_EMBED (firstSentence p)] @ [req]) = Some (out, ix', calls)"
            by (simp add: classifyPrompt_def Let_def)
          from commitE[OF this] sid obtain ix1 where
            "updatePromptCounts d (insertPromptIntoNode env J (newNodeId env) (index p)) = Some ix1"
            "out = Returned \<lparr>nodeId = newNodeId env, confidence = score hit1, isNewNode = True\<rparr>"
            "ix' = ix1\<lparr>cache := AList.update ?h \<lparr>nodeId = newNodeId env, confidence = score hit1\<rparr> (cache ix1)\<rparr>"
            by auto
          then show thesis
            using spawn[of "id_match hit1" 2 1 v ix1 "score hit1"] miss fl sp pn by simp
        qed
      next
        case None
        note r1miss = None
        show thesis
        proof (cases "length (nodes ix) > 1")
          case False
          with run miss Inr r1miss
          have "step6 d env ix p ?h v [GEMINI_EMBED (firstSentence p)] = Some (out, ix', calls)"
            by (simp add: classifyPrompt_def Let_def)
          from step6E[OF this miss] show thesis .
        next
          case True
          show thesis
          proof (cases "embedText env 1 (fullText p)")
            case (Inl err)
            with run miss Inr r1miss True
            have "step6 d env ix p ?h v ([GEMINI_EMBED (firstSentence p)] @ [GEMINI_EMBED (fullText p)]) = Some (out, ix', calls)"
              by (simp add: classifyPrompt_def Let_def)
            from step6E[OF this miss] show thesis .
          next
            case (Inr fv)
            note full = Inr
            show thesis
            proof (cases "bestMatch fv (getAllEmbeddedCandidates ix) (thresholdLow s)")
              case None
              with run miss \<open>embedText env 0 (firstSentence p) = Inr v\<close> r1miss True full
              have "step6 d env ix p ?h v ([GEMINI_EMBED (firstSentence p)] @ [GEMINI_EMBED (fullText p)]) = Some (out, ix', calls)"
                by (simp add: classifyPrompt_def Let_def)
              from step6E[OF this miss] show thesis .
            next
              case (Some fullHit)
              from bestMatch_id[OF Some] have "id_match fullHit \<in> id_cand ` set (getAllEmbeddedCandidates ix)" .
              from getAllEmbeddedCandidates_id[OF this] have ef: "map_of (embeddings ix) (id_match fullHit) \<noteq> None" .
              show thesis
              proof (cases "case map_of (nodes ix) (id_match fullHit) of None \<Rightarrow> False | Some hitNode \<Rightarrow> rank hitNode = 1")
                case False
                with run miss \<open>embedText env 0 (firstSentence p) = Inr v\<close> r1miss True full Some
                have "returned (commit d env ix ?h (id_match fullHit) (score fullHit) False (index p))
                  ([GEMINI_EMBED (firstSentence p)] @ [GEMINI_EMBED (fullText p)]) = Some (out, ix', calls)"
                  by (simp add: classifyPrompt_def Let_def)
                from commitE[OF this] show thesis using attach[of "id_match fullHit" _ "score fullHit"] miss ef by auto
              next
                case T: True
                then obtain pn where pn: "map_of (nodes ix) (id_match fullHit) = Some pn" "rank pn = 1"
                  by (auto split: option.splits)
                obtain lbl req where fl: "fetchLabel env 2 (firstSentence p) ix = (lbl, req)"
                  by (cases "fetchLabel env 2 (firstSentence p) ix")
                obtain sub J where sp: "spawnNode env ix (id_match fullHit) lbl 2 (Some fv) = (sub, J)"
                  by (cases "spawnNode env ix (id_match fullHit) lbl 2 (Some fv)")
                have sid: "id_node sub = newNodeId env"
                  using spawnNode_id[of env ix "id_match fullHit" lbl 2 "Some fv"] sp by simp
                from run miss \<open>embedText env 0 (firstSentence p) = Inr v\<close> r1miss True full Some T fl sp
                have "returned (commit d env J ?h (id_node sub) (score fullHit) True (index p))
                  (([GEMINI_EMBED (firstSentence p)] @ [GEMINI_EMBED (fullText p)]) @ [req]) = Some (out, ix', calls)"
                  by (simp add: classifyPrompt_def Let_def)
                from commitE[OF this] sid obtain ix1 where
                  "updatePromptCounts d (insertPromptIntoNode env J (newNodeId env) (index p)) = Some ix1"
                  "out = Returned \<lparr>nodeId = newNodeId env, confidence = score fullHit, isNewNode = True\<rparr>"
                  "ix' = ix1\<lparr>cache := AList.update ?h \<lparr>nodeId = newNodeId env, confidence = score fullHit\<rparr> (cache ix1)\<rparr>"
                  by auto
                then show thesis
                  using spawn[of "id_match fullHit" 2 2 fv ix1 "score fullHit"] miss fl sp pn by simp
              qed
            qed
          qed
        qed
      qed
    qed
  qed
qed

section \<open>Cache hits and embedding failures\<close>

lemma returns_kids_cong:
  "(\<And>j. map_option fst (P j) = map_option fst (Q j)) \<Longrightarrow> returns d P k = returns d Q k"
proof (induction d arbitrary: k)
  case 0
  then show ?case by simp
next
  case (Suc d)
  have IH: "\<And>c. returns d P c = returns d Q c" using Suc by blast
  from Suc.prems[of k] show ?case
    by (cases "P k"; cases "Q k") (auto simp: returns.simps(2) IH)
qed

lemma payload_insertPrompt_kids:
  "map_option fst (payload (insertPromptIntoNode env ix nid i) j) = map_option fst (payload ix j)"
  by (cases "map_of (nodes ix) nid")
     (auto simp: payload_def insertPromptIntoNode_def map_of_map_entry)

lemma payload_cache_update [simp]: "payload (ix\<lparr>cache := c\<rparr>) = payload ix"
  by (rule ext) (simp add: payload_def)

lemma cache_insertPrompt [simp]: "cache (insertPromptIntoNode env ix nid i) = cache ix"
  by (simp add: insertPromptIntoNode_def)

lemma classify_returned:
  assumes "classifyPrompt d env ix p s = Some (Returned r, ix', calls)"
  shows "map_of (cache ix') (hashPrompt (fullText p)) = Some \<lparr>nodeId = nodeId r, confidence = confidence r\<rparr>"
    and "returns d (payload ix') ''root''"
proof -
  have fin: "returns d (payload ix1) ''root'' \<and> cache ix1 = cache J"
    if "updatePromptCounts d (insertPromptIntoNode env J nid (index p)) = Some ix1" for J nid ix1
  proof -
    from updatePromptCounts_Some(1,2)[OF that]
    have o: "onlyCounts (insertPromptIntoNode env J nid (index p)) ix1"
      and r: "returns d (payload (insertPromptIntoNode env J nid (index p))) ''root''" by auto
    from onlyCounts_payload[OF o] r have "returns d (payload ix1) ''root''" by simp
    moreover from o have "cache ix1 = cache J" by (simp add: onlyCounts_def)
    ultimately show ?thesis by simp
  qed
  from assms have "map_of (cache ix') (hashPrompt (fullText p)) = Some \<lparr>nodeId = nodeId r, confidence = confidence r\<rparr>
    \<and> returns d (payload ix') ''root''"
  proof (cases rule: classifyPrompt_cases)
    case (hit cached ix1)
    from fin[OF hit(2)] hit show ?thesis by simp
  next
    case (threw err)
    then show ?thesis by simp
  next
    case (attach nid conf ix1)
    from fin[OF attach(3)] attach show ?thesis by (simp add: update_conv')
  next
    case (spawn pid rnk e conf ix1 k)
    from fin[OF spawn(3)] spawn show ?thesis by (simp add: update_conv')
  qed
  then show "map_of (cache ix') (hashPrompt (fullText p)) = Some \<lparr>nodeId = nodeId r, confidence = confidence r\<rparr>"
    and "returns d (payload ix') ''root''" by simp_all
qed

text \<open>
  C2: when a call of \<open>classifyPrompt\<close> has returned for a passage, a later call on the
  store it left, for a passage with the same full text, returns the same node identifier
  and confidence with \<open>isNewNode = False\<close> and sends no request, whatever the outside
  answers; it returns within the nesting depth that sufficed for the first call.
\<close>

theorem classify_same_text_cache_hit:
  assumes first: "classifyPrompt d env1 ix p1 s1 = Some (Returned r1, ix1, calls1)"
    and same: "fullText p2 = fullText p1"
    and depth: "d \<le> d2"
  shows "\<exists>ix2. classifyPrompt d2 env2 ix1 p2 s2 =
           Some (Returned \<lparr>nodeId = nodeId r1, confidence = confidence r1, isNewNode = False\<rparr>, ix2, [])"
proof -
  let ?K = "insertPromptIntoNode env2 ix1 (nodeId r1) (index p2)"
  from classify_returned[OF first] same
  have c: "map_of (cache ix1) (hashPrompt (fullText p2)) = Some \<lparr>nodeId = nodeId r1, confidence = confidence r1\<rparr>"
    and r: "returns d (payload ix1) ''root''" by simp_all
  have "returns d (payload ?K) ''root''"
    using r returns_kids_cong[of "payload ?K" "payload ix1" d "''root''"]
    by (simp add: payload_insertPrompt_kids)
  then have "returns d2 (payload ?K) ''root''" using depth by (rule returns_mono)
  from updatePromptCounts_returns[OF this] obtain ix2 where
    "updatePromptCounts d2 ?K = Some ix2" ..
  with c show ?thesis by (simp add: classifyPrompt_def)
qed


section \<open>The root is never a candidate\<close>

lemma newNodeId_not_root [simp]: "newNodeId env \<noteq> ''root''"
  by (simp add: newNodeId_def)

lemma root_not_newNodeId [simp]: "''root'' \<noteq> newNodeId env"
  by (simp add: newNodeId_def)

lemma all_nodes_map_entry:
  "(\<forall>n\<in>snd ` set xs. Q n) \<Longrightarrow> (\<And>n. Q n \<Longrightarrow> Q (f n)) \<Longrightarrow>
   \<forall>n\<in>snd ` set (AList.map_entry k f xs). Q n"
  by (induction xs) (auto split: if_splits)

lemma all_nodes_update:
  "(\<forall>n\<in>snd ` set xs. Q n) \<Longrightarrow> Q v \<Longrightarrow> \<forall>n\<in>snd ` set (AList.update k v xs). Q n"
  by (induction xs) (auto split: if_splits)

lemma onlyCounts_snd_set:
  assumes "onlyCounts J ix1" and "n' \<in> snd ` set (nodes ix1)"
  shows "\<exists>n\<in>snd ` set (nodes J). \<exists>c. n' = n\<lparr>promptCount := c\<rparr>"
proof -
  from assms(1) have "list_all2 (\<lambda>a b. fst b = fst a \<and> (\<exists>c. snd b = (snd a)\<lparr>promptCount := c\<rparr>))
       (nodes J) (nodes ix1)" by (simp add: onlyCounts_def)
  then show ?thesis using assms(2)
    by (induction rule: list_all2_induct) auto
qed

lemma rootClean_createIndex: "rootClean (createIndex env cid)"
  by (simp add: rootClean_def createIndex_def)

lemma rootClean_insert:
  assumes "rootClean ix" and "nid \<noteq> ''root''"
  shows "rootClean (insertPromptIntoNode env ix nid i)"
proof -
  let ?f = "\<lambda>node. (if i \<in> set (promptIndices node) then node
                     else node\<lparr>promptIndices := promptIndices node @ [i]\<rparr>)\<lparr>updatedAt := now env\<rparr>"
  have "\<forall>n\<in>snd ` set (AList.map_entry nid ?f (nodes ix)). id_node n = ''root'' \<longrightarrow> rank n = 0"
    using assms(1) by (intro all_nodes_map_entry) (auto simp: rootClean_def)
  moreover have "map_of (AList.map_entry nid ?f (nodes ix)) ''root'' = map_of (nodes ix) ''root''"
    using assms(2) by (simp add: map_of_map_entry)
  ultimately show ?thesis using assms(1)
    by (simp add: rootClean_def insertPromptIntoNode_def)
qed

lemma rootClean_spawn:
  assumes "rootClean ix"
  shows "rootClean (snd (spawnNode env ix pid lbl rnk (Some e)))"
proof -
  let ?node = "\<lparr>id_node = newNodeId env, label = lbl, rank = rnk, children = [],
                   promptIndices = [], promptCount = 0,
                   createdAt = now env, updatedAt = now env\<rparr>"
  let ?xs1 = "AList.update (newNodeId env) ?node (nodes ix)"
  let ?f = "\<lambda>parent. parent\<lparr>children := children parent @ [newNodeId env]\<rparr>"
  let ?xs2 = "AList.map_entry pid ?f ?xs1"
  have a1: "\<forall>n\<in>snd ` set ?xs1. id_node n = ''root'' \<longrightarrow> rank n = 0"
    using assms by (intro all_nodes_update) (auto simp: rootClean_def)
  have a2: "\<forall>n\<in>snd ` set ?xs2. id_node n = ''root'' \<longrightarrow> rank n = 0"
    using a1 by (intro all_nodes_map_entry) auto
  from assms obtain r where r: "map_of (nodes ix) ''root'' = Some r" "promptIndices r = []"
    by (auto simp: rootClean_def)
  then have "\<exists>r'. map_of ?xs2 ''root'' = Some r' \<and> promptIndices r' = []"
    using newNodeId_not_root[of env] by (auto simp: map_of_map_entry update_conv')
  moreover have "map_of (AList.update (newNodeId env) e (embeddings ix)) ''root'' = None"
    using assms newNodeId_not_root[of env] by (auto simp: update_conv' rootClean_def)
  ultimately show ?thesis using assms a2
    by (simp add: rootClean_def spawnNode_def Let_def)
qed

lemma rootClean_onlyCounts:
  assumes "rootClean J" and "onlyCounts J ix1"
  shows "rootClean ix1"
proof -
  from assms(2) have same: "embeddings ix1 = embeddings J" "cache ix1 = cache J"
    by (simp_all add: onlyCounts_def)
  from assms(1) obtain r where r: "map_of (nodes J) ''root'' = Some r" "promptIndices r = []"
    by (auto simp: rootClean_def)
  from onlyCounts_map_of[OF assms(2), of "''root''"] r
  have "\<exists>r'. map_of (nodes ix1) ''root'' = Some r' \<and> promptIndices r' = []"
    by (cases "map_of (nodes ix1) ''root''") auto
  moreover have "\<forall>n\<in>snd ` set (nodes ix1). id_node n = ''root'' \<longrightarrow> rank n = 0"
  proof
    fix n' assume "n' \<in> snd ` set (nodes ix1)"
    from onlyCounts_snd_set[OF assms(2) this] obtain n c where
      "n \<in> snd ` set (nodes J)" "n' = n\<lparr>promptCount := c\<rparr>" by auto
    with assms(1) show "id_node n' = ''root'' \<longrightarrow> rank n' = 0" by (auto simp: rootClean_def)
  qed
  ultimately show ?thesis using assms(1) same by (simp add: rootClean_def)
qed

lemma rootClean_cache:
  "rootClean ix \<Longrightarrow> nid \<noteq> ''root'' \<Longrightarrow>
   rootClean (ix\<lparr>cache := AList.update h \<lparr>nodeId = nid, confidence = conf\<rparr> (cache ix)\<rparr>)"
  by (auto simp: rootClean_def update_conv' split: if_splits)

lemma rootClean_classify:
  assumes "rootClean ix" and "classifyPrompt d env ix p s = Some (out, ix', calls)"
  shows "rootClean ix'"
  using assms(2)
proof (cases rule: classifyPrompt_cases)
  case (hit cached ix1)
  from assms(1) hit(1) have "nodeId cached \<noteq> ''root''" by (auto simp: rootClean_def)
  from rootClean_insert[OF assms(1) this] updatePromptCounts_Some(1)[OF hit(2)] hit(4)
  show ?thesis by (auto intro: rootClean_onlyCounts)
next
  case (threw err)
  with assms(1) show ?thesis by simp
next
  case (attach nid conf ix1)
  from assms(1) attach(2) have n: "nid \<noteq> ''root''" by (auto simp: rootClean_def)
  from rootClean_insert[OF assms(1) n] updatePromptCounts_Some(1)[OF attach(3)]
  have "rootClean ix1" by (auto intro: rootClean_onlyCounts)
  from rootClean_cache[OF this n] attach(5) show ?thesis by simp
next
  case (spawn pid rnk e conf ix1 k)
  have "rootClean (insertPromptIntoNode env
            (snd (spawnNode env ix pid (fst (fetchLabel env k (firstSentence p) ix)) rnk (Some e)))
            (newNodeId env) (index p))"
    by (intro rootClean_insert rootClean_spawn assms(1) newNodeId_not_root)
  from this updatePromptCounts_Some(1)[OF spawn(3)]
  have "rootClean ix1" by (rule rootClean_onlyCounts)
  from rootClean_cache[OF this newNodeId_not_root] spawn(5) show ?thesis by simp
qed

lemma rootClean_embed_fold:
  assumes "\<forall>n\<in>set ns. id_node n \<noteq> ''root''"
  shows "rootClean ix \<Longrightarrow>
     rootClean (snd (fold (\<lambda>node (k, ix1).
                         (Suc k,
                          case embedText env k (label node) of
                            Inl err \<Rightarrow> ix1
                          | Inr e \<Rightarrow> ix1\<lparr>embeddings := AList.update (id_node node) e (embeddings ix1)\<rparr>))
                   ns (start, ix)))"
  using assms
proof (induction ns arbitrary: start ix)
  case Nil
  then show ?case by simp
next
  case (Cons n ns)
  let ?ix1 = "case embedText env start (label n) of
                Inl err \<Rightarrow> ix
              | Inr e \<Rightarrow> ix\<lparr>embeddings := AList.update (id_node n) e (embeddings ix)\<rparr>"
  have "rootClean ?ix1" using Cons.prems
    by (cases "embedText env start (label n)") (auto simp: rootClean_def update_conv')
  from Cons.IH[OF this, of "Suc start"] Cons.prems(2) show ?case by simp
qed

lemma rootClean_initializeEmbeddings:
  assumes "rootClean ix"
  shows "rootClean (initializeEmbeddings env ix s)"
proof -
  have "\<forall>n\<in>set (filter (\<lambda>n. rank n > 0 \<and> map_of (embeddings ix) (id_node n) = None)
                     (map snd (nodes ix))). id_node n \<noteq> ''root''"
    using assms by (auto simp: rootClean_def)
  from rootClean_embed_fold[OF this assms, where env = env and start = 0] assms show ?thesis
    by (simp add: initializeEmbeddings_def Let_def)
qed

lemma reachable_rootClean: "reachable ix \<Longrightarrow> rootClean ix"
proof (induction rule: reachable.induct)
  case (created env cid)
  show ?case by (rule rootClean_createIndex)
next
  case (classified ix depth env prompt settings out ix' calls)
  then show ?case by (auto intro: rootClean_classify)
next
  case (embedded ix env settings)
  from embedded.IH show ?case by (rule rootClean_initializeEmbeddings)
qed

text \<open>
  C10: in every store reachable from \<open>createIndex\<close> by calls of \<open>classifyPrompt\<close> and
  \<open>initializeEmbeddings\<close>, the root has no embedding, it is neither among the candidates
  of the rank-1 scan nor among those of the escalation scan, and its list of prompt indices
  is empty.
\<close>

theorem root_never_candidate:
  assumes "reachable ix"
  shows "map_of (embeddings ix) ''root'' = None \<and>
         ''root'' \<notin> id_cand ` set (getChildCandidates ix ''root'' (Some 1)) \<and>
         ''root'' \<notin> id_cand ` set (getAllEmbeddedCandidates ix) \<and>
         (\<exists>r. map_of (nodes ix) ''root'' = Some r \<and> promptIndices r = [])"
proof -
  from reachable_rootClean[OF assms] have c: "rootClean ix" .
  then have e: "map_of (embeddings ix) ''root'' = None" by (simp add: rootClean_def)
  have "''root'' \<notin> id_cand ` set (getChildCandidates ix ''root'' (Some 1))"
    using getChildCandidates_id(1)[of "''root''" ix "''root''" "Some 1"] e by blast
  moreover have "''root'' \<notin> id_cand ` set (getAllEmbeddedCandidates ix)"
    using getAllEmbeddedCandidates_id[of "''root''" ix] e by blast
  ultimately show ?thesis using c e by (simp add: rootClean_def)
qed

section \<open>Evaluation of the sample runs\<close>

lemma demoEnv_sel [simp]:
  "now (demoEnv t) = t" "random36 (demoEnv t) = ''a''" "embedText (demoEnv t) k txt = Inr [1]"
  "generateLabel (demoEnv t) k txt ls = Inl ''offline''" "saveRejects (demoEnv t) = False"
  by (simp_all add: demoEnv_def)

lemmas demo_defs = demoSettings_def demoPrompt_def

lemma demo_newNodeId:
  "newNodeId (demoEnv (Suc 0)) = ''node_1_a''" "newNodeId (demoEnv 2) = ''node_2_a''"
  by (simp_all add: newNodeId_def natToString.simps digitChar_def)

lemma demo_hashes: "hashPrompt ''a'' = ''00028bfc''" "hashPrompt ''b'' = ''00028bfd''"
  by (simp_all add: hashPrompt_def natToString.simps digitChar_def padStart_def numeral_3_eq_3)

lemmas classify_unfold = classifyPrompt_def step6_def fetchLabel_def spawnNode_def commit_def
  returned_def updatePromptCounts_def insertPromptIntoNode_def getChildCandidates_def
  getAllEmbeddedCandidates_def bestMatch_def cosineSimilarity_def trim_def isWhiteSpace_def
  recountSubtree_Suc recountStep_def Let_def

lemma demo_run1:
  "classifyPrompt (Suc (Suc (Suc 0))) (demoEnv 1) (createIndex (demoEnv 0) ''c'') (demoPrompt ''a'' 0) demoSettings
     = Some (Returned \<lparr>nodeId = ''node_1_a'', confidence = 0, isNewNode = True\<rparr>, demoStore1,
             [GEMINI_EMBED '' a'', GEMINI_LABEL '' a'' []])"
  by (simp add: classify_unfold demo_newNodeId createIndex_def demoStore1_def demo_defs)

lemma demo_run2:
  "classifyPrompt (Suc (Suc (Suc 0))) (demoEnv 2) demoStore1 (demoPrompt ''b'' 1) demoSettings
     = Some (Returned \<lparr>nodeId = ''node_2_a'', confidence = 1, isNewNode = True\<rparr>, demoStore2,
             [GEMINI_EMBED '' b'', GEMINI_LABEL '' b'' [''a'']])"
  by (simp add: classify_unfold demo_newNodeId demo_hashes demoStore1_def demoStore2_def demo_defs)

section \<open>The tree shape and the counts\<close>

lemma treeShapedMap_cong:
  assumes "treeShapedMap N"
    and rel: "\<And>j. rel_option (\<lambda>a b. rank a = rank b \<and> children a = children b) (N j) (N' j)"
  shows "treeShapedMap N'"
proof -
  have bk: "\<exists>n. N k = Some n \<and> rank n = rank n' \<and> children n = children n'"
    if "N' k = Some n'" for k n'
    using rel[of k] that by (cases "N k") auto
  have fw: "\<exists>n'. N' k = Some n' \<and> rank n = rank n' \<and> children n = children n'"
    if "N k = Some n" for k n
    using rel[of k] that by (cases "N' k") auto
  from assms(1) obtain r where "N ''root'' = Some r" "rank r = 0" by (auto simp: treeShapedMap_def)
  with fw[of "''root''" r] have root: "\<exists>r. N' ''root'' = Some r \<and> rank r = 0" by auto
  have main: "rank n' \<le> 2 \<and> (rank n' = 0 \<longrightarrow> k = ''root'') \<and>
        (\<forall>c\<in>set (children n'). \<exists>m. N' c = Some m \<and> rank m = Suc (rank n')) \<and>
        (k \<noteq> ''root'' \<longrightarrow> (\<exists>p pn. N' p = Some pn \<and> k \<in> set (children pn)))"
    if a: "N' k = Some n'" for k n'
  proof -
    from bk[OF a] obtain n where n: "N k = Some n" "rank n = rank n'" "children n = children n'" by auto
    from assms(1) n(1) have
      s: "rank n \<le> 2" "rank n = 0 \<longrightarrow> k = ''root''"
         "\<forall>c\<in>set (children n). \<exists>m. N c = Some m \<and> rank m = Suc (rank n)"
         "k \<noteq> ''root'' \<longrightarrow> (\<exists>p pn. N p = Some pn \<and> k \<in> set (children pn))"
      unfolding treeShapedMap_def by blast+
    have c1: "\<forall>c\<in>set (children n'). \<exists>m. N' c = Some m \<and> rank m = Suc (rank n')"
    proof
      fix c assume "c \<in> set (children n')"
      with s(3) n(3) obtain m where m: "N c = Some m" "rank m = Suc (rank n)" by auto
      from fw[OF m(1)] m(2) n(2) show "\<exists>m. N' c = Some m \<and> rank m = Suc (rank n')" by auto
    qed
    have c2: "k \<noteq> ''root'' \<longrightarrow> (\<exists>p pn. N' p = Some pn \<and> k \<in> set (children pn))"
    proof
      assume "k \<noteq> ''root''"
      with s(4) obtain p pn where p: "N p = Some pn" "k \<in> set (children pn)" by auto
      from fw[OF p(1)] p(2) show "\<exists>p pn. N' p = Some pn \<and> k \<in> set (children pn)" by force
    qed
    from s(1,2) n(2) c1 c2 show ?thesis by simp
  qed
  show ?thesis unfolding treeShapedMap_def using root main by blast
qed

lemma treeShapedMap_spawn:
  assumes sh: "treeShapedMap N"
    and fresh: "N nid = None"
    and par: "N pid = Some pn"
    and rk: "rank node = Suc (rank pn)" "rank node \<le> 2"
    and leaf: "children node = []"
  shows "treeShapedMap (N(nid \<mapsto> node, pid \<mapsto> pn\<lparr>children := children pn @ [nid]\<rparr>))"
proof -
  let ?N = "N(nid \<mapsto> node, pid \<mapsto> pn\<lparr>children := children pn @ [nid]\<rparr>)"
  have ne: "pid \<noteq> nid" using fresh par by auto
  from sh obtain r where r: "N ''root'' = Some r" "rank r = 0" by (auto simp: treeShapedMap_def)
  have nr: "nid \<noteq> ''root''" using fresh r by auto
  have old: "\<And>k n. N k = Some n \<Longrightarrow>
      rank n \<le> 2 \<and> (rank n = 0 \<longrightarrow> k = ''root'') \<and>
      (\<forall>c\<in>set (children n). \<exists>m. N c = Some m \<and> rank m = Suc (rank n)) \<and>
      (k \<noteq> ''root'' \<longrightarrow> (\<exists>p pn. N p = Some pn \<and> k \<in> set (children pn)))"
    using sh unfolding treeShapedMap_def by blast
  have keep: "\<And>c m. N c = Some m \<Longrightarrow> \<exists>m'. ?N c = Some m' \<and> rank m' = rank m \<and> set (children m) \<subseteq> set (children m')"
    using fresh par by (auto split: if_splits)
  have root: "\<exists>r. ?N ''root'' = Some r \<and> rank r = 0" using keep[OF r(1)] r(2) by auto
  have main: "rank n \<le> 2 \<and> (rank n = 0 \<longrightarrow> k = ''root'') \<and>
        (\<forall>c\<in>set (children n). \<exists>m. ?N c = Some m \<and> rank m = Suc (rank n)) \<and>
        (k \<noteq> ''root'' \<longrightarrow> (\<exists>p pn. ?N p = Some pn \<and> k \<in> set (children pn)))"
    if a: "?N k = Some n" for k n
  proof -
    consider (new) "k = nid" "n = node"
      | (parent) "k = pid" "n = pn\<lparr>children := children pn @ [nid]\<rparr>"
      | (other) "k \<noteq> nid" "k \<noteq> pid" "N k = Some n"
      using a ne by (auto split: if_splits)
    then show ?thesis
    proof cases
      case new
      have "\<exists>p pn'. ?N p = Some pn' \<and> nid \<in> set (children pn')"
        by (rule exI[of _ pid]) simp
      with new rk leaf show ?thesis by simp
    next
      case parent
      from old[OF par] have o: "rank pn \<le> 2" "rank pn = 0 \<longrightarrow> pid = ''root''"
        "\<forall>c\<in>set (children pn). \<exists>m. N c = Some m \<and> rank m = Suc (rank pn)"
        "pid \<noteq> ''root'' \<longrightarrow> (\<exists>p pn'. N p = Some pn' \<and> pid \<in> set (children pn'))" by blast+
      have kids: "\<forall>c\<in>set (children n). \<exists>m. ?N c = Some m \<and> rank m = Suc (rank n)"
      proof
        fix c assume "c \<in> set (children n)"
        with parent have "c \<in> set (children pn) \<or> c = nid" by auto
        then show "\<exists>m. ?N c = Some m \<and> rank m = Suc (rank n)"
        proof
          assume "c \<in> set (children pn)"
          with o(3) obtain m where m: "N c = Some m" "rank m = Suc (rank pn)" by auto
          from keep[OF m(1)] m(2) parent show ?thesis by auto
        next
          assume "c = nid"
          with ne rk parent show ?thesis by simp
        qed
      qed
      have up: "pid \<noteq> ''root'' \<longrightarrow> (\<exists>p pn'. ?N p = Some pn' \<and> pid \<in> set (children pn'))"
      proof
        assume "pid \<noteq> ''root''"
        with o(4) obtain p pn' where p: "N p = Some pn'" "pid \<in> set (children pn')" by auto
        from keep[OF p(1)] p(2) show "\<exists>p pn'. ?N p = Some pn' \<and> pid \<in> set (children pn')" by blast
      qed
      from o(1,2) kids up parent show ?thesis by simp
    next
      case other
      from old[OF other(3)] have o: "rank n \<le> 2" "rank n = 0 \<longrightarrow> k = ''root''"
        "\<forall>c\<in>set (children n). \<exists>m. N c = Some m \<and> rank m = Suc (rank n)"
        "k \<noteq> ''root'' \<longrightarrow> (\<exists>p pn'. N p = Some pn' \<and> k \<in> set (children pn'))" by blast+
      have kids: "\<forall>c\<in>set (children n). \<exists>m. ?N c = Some m \<and> rank m = Suc (rank n)"
      proof
        fix c assume "c \<in> set (children n)"
        with o(3) obtain m where m: "N c = Some m" "rank m = Suc (rank n)" by auto
        from keep[OF m(1)] m(2) show "\<exists>m. ?N c = Some m \<and> rank m = Suc (rank n)" by auto
      qed
      have up: "k \<noteq> ''root'' \<longrightarrow> (\<exists>p pn'. ?N p = Some pn' \<and> k \<in> set (children pn'))"
      proof
        assume "k \<noteq> ''root''"
        with o(4) obtain p pn' where p: "N p = Some pn'" "k \<in> set (children pn')" by auto
        from keep[OF p(1)] p(2) show "\<exists>p pn'. ?N p = Some pn' \<and> k \<in> set (children pn')" by blast
      qed
      from o(1,2) kids up show ?thesis by simp
    qed
  qed
  show ?thesis unfolding treeShapedMap_def using root main by blast
qed

lemma nodes_spawnNode:
  "map_of (nodes (snd (spawnNode env ix pid lbl rnk emb))) =
     (let node = \<lparr>id_node = newNodeId env, label = lbl, rank = rnk, children = [],
                   promptIndices = [], promptCount = 0,
                   createdAt = now env, updatedAt = now env\<rparr>;
          M = (map_of (nodes ix))(newNodeId env \<mapsto> node)
      in case M pid of None \<Rightarrow> M
         | Some pn \<Rightarrow> M(pid \<mapsto> pn\<lparr>children := children pn @ [newNodeId env]\<rparr>))"
  by (cases emb) (auto simp: spawnNode_def Let_def map_of_map_entry update_conv' split: option.splits)

lemma treeShaped_spawn:
  assumes sh: "treeShaped ix"
    and fresh: "map_of (nodes ix) (newNodeId env) = None"
    and par: "map_of (nodes ix) pid = Some pn"
    and rk: "rnk = Suc (rank pn)" "rnk \<le> 2"
  shows "treeShaped (snd (spawnNode env ix pid lbl rnk emb))"
proof -
  let ?node = "\<lparr>id_node = newNodeId env, label = lbl, rank = rnk, children = [],
                   promptIndices = [], promptCount = 0,
                   createdAt = now env, updatedAt = now env\<rparr>"
  have ne: "pid \<noteq> newNodeId env" using fresh par by auto
  have "map_of (nodes (snd (spawnNode env ix pid lbl rnk emb))) =
          (map_of (nodes ix))(newNodeId env \<mapsto> ?node,
                              pid \<mapsto> pn\<lparr>children := children pn @ [newNodeId env]\<rparr>)"
    using par ne by (simp add: nodes_spawnNode Let_def)
  moreover have "treeShapedMap ((map_of (nodes ix))(newNodeId env \<mapsto> ?node,
                              pid \<mapsto> pn\<lparr>children := children pn @ [newNodeId env]\<rparr>))"
    using sh fresh par rk by (intro treeShapedMap_spawn) (simp_all add: treeShaped_def)
  ultimately show ?thesis by (simp add: treeShaped_def)
qed

lemma treeShaped_insert:
  assumes "treeShaped ix"
  shows "treeShaped (insertPromptIntoNode env ix nid i)"
proof -
  have "rel_option (\<lambda>a b. rank a = rank b \<and> children a = children b)
          (map_of (nodes ix) j) (map_of (nodes (insertPromptIntoNode env ix nid i)) j)" for j
    by (cases "map_of (nodes ix) nid"; cases "map_of (nodes ix) j")
       (auto simp: insertPromptIntoNode_def map_of_map_entry)
  with assms show ?thesis unfolding treeShaped_def by (rule treeShapedMap_cong)
qed

lemma treeShaped_onlyCounts:
  assumes "treeShaped J" and "onlyCounts J ix1"
  shows "treeShaped ix1"
proof -
  have "rel_option (\<lambda>a b. rank a = rank b \<and> children a = children b)
          (map_of (nodes J) j) (map_of (nodes ix1) j)" for j
    using onlyCounts_map_of[OF assms(2), of j]
    by (cases "map_of (nodes J) j"; cases "map_of (nodes ix1) j") auto
  with assms(1) show ?thesis unfolding treeShaped_def by (rule treeShapedMap_cong)
qed

lemma treeShaped_cache [simp]: "treeShaped (ix\<lparr>cache := c\<rparr>) = treeShaped ix"
  by (simp add: treeShaped_def)

lemma countsOk_cache [simp]: "countsOk (ix\<lparr>cache := c\<rparr>) = countsOk ix"
  by (simp add: countsOk_def)

lemma visited_self: "P k \<noteq> None \<Longrightarrow> k \<in> visited (Suc d) P k"
  by (cases "P k") (auto simp: visited.simps(2))

lemma visited_child:
  "P p = Some (cs, m) \<Longrightarrow> c \<in> set cs \<Longrightarrow> j \<in> visited d P c \<Longrightarrow> j \<in> visited (Suc d) P p"
  by (auto simp: visited.simps(2))

lemma treeShaped_returns:
  assumes "treeShaped ix"
  shows "returns (Suc (Suc (Suc 0))) (payload ix) ''root''"
    and "\<And>k. map_of (nodes ix) k \<noteq> None \<Longrightarrow> k \<in> visited (Suc (Suc (Suc 0))) (payload ix) ''root''"
proof -
  let ?N = "map_of (nodes ix)"
  let ?P = "payload ix"
  have sh: "\<And>k n. ?N k = Some n \<Longrightarrow>
      rank n \<le> 2 \<and> (rank n = 0 \<longrightarrow> k = ''root'') \<and>
      (\<forall>c\<in>set (children n). \<exists>m. ?N c = Some m \<and> rank m = Suc (rank n)) \<and>
      (k \<noteq> ''root'' \<longrightarrow> (\<exists>p pn. ?N p = Some pn \<and> k \<in> set (children pn)))"
    using assms unfolding treeShaped_def treeShapedMap_def by blast
  from assms obtain r where r: "?N ''root'' = Some r" "rank r = 0"
    unfolding treeShaped_def treeShapedMap_def by blast
  have pay: "\<And>k n. ?N k = Some n \<Longrightarrow> ?P k = Some (children n, length (promptIndices n))"
    by (simp add: payload_def)
  have r2: "returns (Suc 0) ?P k" if "?N k = Some n" "rank n = 2" for k n
  proof -
    have "children n = []"
    proof (cases "children n")
      case (Cons c cs)
      with sh[OF that(1)] obtain m where "?N c = Some m" "rank m = Suc (rank n)" by auto
      with sh[of c m] that(2) show ?thesis by simp
    qed simp
    with pay[OF that(1)] show ?thesis by (simp add: returns.simps(2))
  qed
  have r1: "returns (Suc (Suc 0)) ?P k" if "?N k = Some n" "rank n = 1" for k n
  proof -
    have "\<forall>c\<in>set (children n). returns (Suc 0) ?P c"
    proof
      fix c assume "c \<in> set (children n)"
      with sh[OF that(1)] that(2) obtain m where "?N c = Some m" "rank m = 2" by auto
      then show "returns (Suc 0) ?P c" by (rule r2)
    qed
    with pay[OF that(1)] show ?thesis by (simp add: returns.simps(2)[of "Suc 0"])
  qed
  have "\<forall>c\<in>set (children r). returns (Suc (Suc 0)) ?P c"
  proof
    fix c assume "c \<in> set (children r)"
    with sh[OF r(1)] r(2) obtain m where "?N c = Some m" "rank m = 1" by auto
    then show "returns (Suc (Suc 0)) ?P c" by (rule r1)
  qed
  with pay[OF r(1)] show "returns (Suc (Suc (Suc 0))) ?P ''root''"
    by (simp add: returns.simps(2)[of "Suc (Suc 0)"])
  fix k assume "?N k \<noteq> None"
  then obtain n where n: "?N k = Some n" by auto
  have self: "\<And>j d. ?N j \<noteq> None \<Longrightarrow> j \<in> visited (Suc d) ?P j"
    by (rule visited_self) (auto simp: payload_def)
  have under_root: "j \<in> visited (Suc (Suc (Suc 0))) ?P ''root''"
    if "c \<in> set (children r)" "j \<in> visited (Suc (Suc 0)) ?P c" for c j
    using visited_child[OF pay[OF r(1)] that] .
  show "k \<in> visited (Suc (Suc (Suc 0))) ?P ''root''"
  proof (cases "k = ''root''")
    case True
    with self[of "''root''"] r show ?thesis by simp
  next
    case False
    with sh[OF n] obtain p pn where p: "?N p = Some pn" "k \<in> set (children pn)" by auto
    with sh[OF p(1)] n have rk: "rank n = Suc (rank pn)" by auto
    show ?thesis
    proof (cases "p = ''root''")
      case True
      with p r have "k \<in> set (children r)" by simp
      moreover have "k \<in> visited (Suc (Suc 0)) ?P k" using self[of k] n by simp
      ultimately show ?thesis by (rule under_root)
    next
      case pf: False
      with sh[OF p(1)] obtain q qn where q: "?N q = Some qn" "p \<in> set (children qn)" by auto
      with sh[OF q(1)] p(1) have rp: "rank pn = Suc (rank qn)" by auto
      from sh[OF n] rk rp have "rank qn = 0" by simp
      with sh[OF q(1)] have "q = ''root''" by simp
      with q r have pr: "p \<in> set (children r)" by simp
      have "k \<in> visited (Suc 0) ?P k" using self[of k] n by simp
      from visited_child[OF pay[OF p(1)] p(2) this] have "k \<in> visited (Suc (Suc 0)) ?P p" .
      with pr show ?thesis by (rule under_root)
    qed
  qed
qed

lemma subtotal_unfold:
  assumes "returns d P k" and "P k = Some (cs, m)"
  shows "subtotal d P k = m + sum_list (map (subtotal d P) cs)"
proof (cases d)
  case 0
  with assms show ?thesis by simp
next
  case (Suc d')
  with assms have "\<forall>c\<in>set cs. returns d' P c" by (simp add: returns.simps(2))
  then have "sum_list (map (subtotal d' P) cs) = sum_list (map (subtotal (Suc d') P) cs)"
    by (intro arg_cong[where f = sum_list] map_cong) (auto simp: subtotal_Suc)
  with Suc assms(2) show ?thesis by (simp add: subtotal.simps(2)[of d' P k])
qed

lemma recount_countsOk:
  assumes sh: "treeShaped J" and run: "updatePromptCounts d J = Some ix1"
  shows "countsOk ix1"
proof -
  let ?P = "payload J"
  note u = updatePromptCounts_Some[OF run]
  have vis: "visited d ?P ''root'' = visited (Suc (Suc (Suc 0))) ?P ''root''"
  proof (cases "d \<le> 3")
    case True
    from visited_stable[OF u(2), of "Suc (Suc (Suc 0))"] True show ?thesis by (simp add: numeral_3_eq_3)
  next
    case False
    from visited_stable[OF treeShaped_returns(1)[OF sh], of d] False show ?thesis
      by (simp add: numeral_3_eq_3)
  qed
  have cnt: "counts ix1 j = Some (subtotal d ?P j)" if "map_of (nodes J) j \<noteq> None" for j
    using u(3)[of j] treeShaped_returns(2)[OF sh that] vis by simp
  have sh1: "treeShaped ix1" using sh u(1) by (rule treeShaped_onlyCounts)
  show ?thesis unfolding countsOk_def
  proof (intro allI impI)
    fix k n' assume k: "map_of (nodes ix1) k = Some n'"
    from onlyCounts_map_of[OF u(1), of k] k obtain n where
      n: "map_of (nodes J) k = Some n" "children n' = children n" "promptIndices n' = promptIndices n"
      by (cases "map_of (nodes J) k") auto
    have pk: "?P k = Some (children n, length (promptIndices n))" using n(1) by (simp add: payload_def)
    have "k \<in> visited d ?P ''root''"
      using treeShaped_returns(2)[OF sh, of k] n(1) vis by simp
    from visited_returns[OF this u(2)] have rk: "returns d ?P k" .
    have pc: "promptCount n' = subtotal d ?P k" using cnt[of k] n(1) k by (simp add: counts_def)
    have "(case map_of (nodes ix1) c of None \<Rightarrow> 0 | Some m \<Rightarrow> promptCount m) = subtotal d ?P c"
      if "c \<in> set (children n)" for c
    proof -
      from sh n(1) that obtain m where "map_of (nodes J) c = Some m"
        unfolding treeShaped_def treeShapedMap_def by blast
      then have "map_of (nodes J) c \<noteq> None" by simp
      from cnt[OF this] show ?thesis by (cases "map_of (nodes ix1) c") (auto simp: counts_def)
    qed
    then have "sum_list (map (\<lambda>c. case map_of (nodes ix1) c of None \<Rightarrow> 0 | Some m \<Rightarrow> promptCount m) (children n))
               = sum_list (map (subtotal d ?P) (children n))"
      by (intro arg_cong[where f = sum_list] map_cong) auto
    with subtotal_unfold[OF rk pk] pc n(2,3)
    show "promptCount n' = length (promptIndices n') +
          sum_list (map (\<lambda>c. case map_of (nodes ix1) c of None \<Rightarrow> 0 | Some m \<Rightarrow> promptCount m)
                      (children n'))" by simp
  qed
qed

lemma recount_total:
  assumes "treeShaped J" and "3 \<le> d"
  shows "\<exists>ix1. updatePromptCounts d J = Some ix1"
proof -
  from returns_mono[OF treeShaped_returns(1)[OF assms(1)], of d] assms(2)
  have "returns d (payload J) ''root''" by (simp add: numeral_3_eq_3)
  then show ?thesis by (rule updatePromptCounts_returns)
qed

lemma treeShaped_createIndex: "treeShaped (createIndex env cid)"
  by (simp add: treeShaped_def treeShapedMap_def createIndex_def)

lemma countsOk_createIndex: "countsOk (createIndex env cid)"
  by (simp add: countsOk_def createIndex_def)

lemma nodes_embed_fold:
  "nodes (snd (fold (\<lambda>node (k, ix1).
                         (Suc k,
                          case embedText env k (label node) of
                            Inl err \<Rightarrow> ix1
                          | Inr e \<Rightarrow> ix1\<lparr>embeddings := AList.update (id_node node) e (embeddings ix1)\<rparr>))
                   ns (start, ix))) = nodes ix"
proof (induction ns arbitrary: start ix)
  case Nil
  then show ?case by simp
next
  case (Cons n ns)
  show ?case using Cons.IH by (cases "embedText env start (label n)") simp_all
qed

lemma nodes_initializeEmbeddings: "nodes (initializeEmbeddings env ix s) = nodes ix"
  by (simp add: initializeEmbeddings_def Let_def nodes_embed_fold)

lemma treeShaped_spawn_cases:
  assumes sh: "treeShaped ix"
    and fresh: "map_of (nodes ix) (newNodeId env) = None"
    and par: "(pid = ''root'' \<and> rnk = 1) \<or>
              (rnk = 2 \<and> (\<exists>pn. map_of (nodes ix) pid = Some pn \<and> rank pn = 1))"
  shows "treeShaped (snd (spawnNode env ix pid lbl rnk emb))"
    and "\<exists>pn. map_of (nodes ix) pid = Some pn"
proof -
  from sh obtain r where r: "map_of (nodes ix) ''root'' = Some r" "rank r = 0"
    unfolding treeShaped_def treeShapedMap_def by blast
  from par r obtain pn where pn: "map_of (nodes ix) pid = Some pn" "rnk = Suc (rank pn)" "rnk \<le> 2"
    by auto
  from treeShaped_spawn[OF sh fresh pn] show "treeShaped (snd (spawnNode env ix pid lbl rnk emb))" .
  from pn(1) show "\<exists>pn. map_of (nodes ix) pid = Some pn" ..
qed

lemma placed_invariant:
  assumes "treeShaped J"
    and "updatePromptCounts d (insertPromptIntoNode env J nid i) = Some ix1"
  shows "treeShaped ix1 \<and> countsOk ix1"
proof -
  have sh: "treeShaped (insertPromptIntoNode env J nid i)" using assms(1) by (rule treeShaped_insert)
  from recount_countsOk[OF sh assms(2)]
    treeShaped_onlyCounts[OF sh updatePromptCounts_Some(1)[OF assms(2)]]
  show ?thesis by simp
qed

lemma classify_invariant:
  assumes inv: "treeShaped ix \<and> countsOk ix"
    and fresh: "map_of (nodes ix) (newNodeId env) = None"
    and run: "classifyPrompt d env ix p s = Some (out, ix', calls)"
  shows "treeShaped ix' \<and> countsOk ix'"
  using run
proof (cases rule: classifyPrompt_cases)
  case (hit cached ix1)
  from placed_invariant[OF _ hit(2)] inv hit(4) show ?thesis by simp
next
  case (threw err)
  with inv show ?thesis by simp
next
  case (attach nid conf ix1)
  from placed_invariant[OF _ attach(3)] inv attach(5) show ?thesis by simp
next
  case (spawn pid rnk e conf ix1 k)
  from inv have "treeShaped ix" by simp
  from treeShaped_spawn_cases(1)[OF this fresh spawn(2)]
  have "treeShaped (snd (spawnNode env ix pid (fst (fetchLabel env k (firstSentence p) ix)) rnk (Some e)))" .
  from placed_invariant[OF this spawn(3)] spawn(5) show ?thesis by simp
qed

lemma reachableFresh_invariant: "reachableFresh ix \<Longrightarrow> treeShaped ix \<and> countsOk ix"
proof (induction rule: reachableFresh.induct)
  case (created env cid)
  show ?case by (simp add: treeShaped_createIndex countsOk_createIndex)
next
  case (classified ix env depth prompt settings out ix' calls)
  from classify_invariant[OF classified.IH classified.hyps(2,3)] show ?case .
next
  case (embedded ix env settings)
  then show ?case by (simp add: treeShaped_def countsOk_def nodes_initializeEmbeddings)
qed

text \<open>
  C1: in every store reachable from \<open>createIndex\<close> by calls of \<open>classifyPrompt\<close> (each
  of which ends with \<open>updatePromptCounts\<close>) and \<open>initializeEmbeddings\<close>, where no call
  generates an identifier already in use, every child of every node exists and the count
  of every node is the number of its own prompt indices plus the counts of its children.
\<close>

theorem prompt_count_invariant:
  assumes "reachableFresh ix" and "map_of (nodes ix) k = Some n"
  shows "(\<forall>c\<in>set (children n). map_of (nodes ix) c \<noteq> None) \<and>
         promptCount n = length (promptIndices n) +
           sum_list (map (\<lambda>c. case map_of (nodes ix) c of None \<Rightarrow> 0 | Some m \<Rightarrow> promptCount m)
                       (children n))"
proof -
  from reachableFresh_invariant[OF assms(1)] have sh: "treeShaped ix" and ok: "countsOk ix" by simp_all
  from sh assms(2) have "\<forall>c\<in>set (children n). map_of (nodes ix) c \<noteq> None"
    unfolding treeShaped_def treeShapedMap_def by fastforce
  moreover from ok assms(2) have "promptCount n = length (promptIndices n) +
           sum_list (map (\<lambda>c. case map_of (nodes ix) c of None \<Rightarrow> 0 | Some m \<Rightarrow> promptCount m)
                       (children n))"
    unfolding countsOk_def by blast
  ultimately show ?thesis by simp
qed

lemma demo_fresh1: "reachableFresh demoStore1"
proof -
  have "reachableFresh (createIndex (demoEnv 0) ''c'')" by (rule reachableFresh.created)
  moreover have "map_of (nodes (createIndex (demoEnv 0) ''c'')) (newNodeId (demoEnv 1)) = None"
    by (simp add: createIndex_def)
  ultimately show ?thesis using demo_run1 by (rule reachableFresh.classified)
qed

lemma demo_fresh2: "reachableFresh demoStore2"
proof -
  have "map_of (nodes demoStore1) (newNodeId (demoEnv 2)) = None"
    by (simp add: demoStore1_def demo_newNodeId)
  with demo_fresh1 show ?thesis using demo_run2 by (rule reachableFresh.classified)
qed

theorem prompt_count_invariant_witness:
  "reachableFresh demoStore2 \<and>
   map_of (nodes demoStore2) ''node_1_a'' =
     Some \<lparr>id_node = ''node_1_a'', label = ''a'', rank = 1, children = [''node_2_a''],
            promptIndices = [0], promptCount = 2, createdAt = 1, updatedAt = 1\<rparr> \<and>
   map_of (nodes demoStore2) ''node_2_a'' \<noteq> None \<and>
   (2 :: nat) = length [0 :: nat] +
       sum_list (map (\<lambda>c. case map_of (nodes demoStore2) c of None \<Rightarrow> 0 | Some m \<Rightarrow> promptCount m)
                   [''node_2_a''])"
proof -
  have n: "map_of (nodes demoStore2) ''node_1_a'' =
     Some \<lparr>id_node = ''node_1_a'', label = ''a'', rank = 1, children = [''node_2_a''],
            promptIndices = [0], promptCount = 2, createdAt = 1, updatedAt = 1\<rparr>"
    by (simp add: demoStore2_def)
  from prompt_count_invariant[OF demo_fresh2 n] demo_fresh2 n show ?thesis by simp
qed

theorem classify_same_text_cache_hit_witness:
  "classifyPrompt (Suc (Suc (Suc 0))) (demoEnv 1) (createIndex (demoEnv 0) ''c'')
       (demoPrompt ''a'' 0) demoSettings
     = Some (Returned \<lparr>nodeId = ''node_1_a'', confidence = 0, isNewNode = True\<rparr>, demoStore1,
             [GEMINI_EMBED '' a'', GEMINI_LABEL '' a'' []]) \<and>
   fullText (demoPrompt ''a'' 5) = fullText (demoPrompt ''a'' 0) \<and>
   (\<exists>ix2. classifyPrompt (Suc (Suc (Suc 0))) (demoEnv 2) demoStore1 (demoPrompt ''a'' 5) demoSettings
       = Some (Returned \<lparr>nodeId = ''node_1_a'', confidence = 0, isNewNode = False\<rparr>, ix2, []))"
proof -
  have same: "fullText (demoPrompt ''a'' 5) = fullText (demoPrompt ''a'' 0)"
    by (simp add: demoPrompt_def)
  from classify_same_text_cache_hit[OF demo_run1 same order_refl, of "demoEnv 2" demoSettings]
    demo_run1 same
  show ?thesis by simp
qed


lemma demo_reachable1: "reachable demoStore1"
proof -
  have "reachable (createIndex (demoEnv 0) ''c'')" by (rule reachable.created)
  then show ?thesis using demo_run1 by (rule reachable.classified)
qed

theorem root_never_candidate_witness:
  "reachable demoStore1 \<and>
   map_of (embeddings demoStore1) ''root'' = None \<and>
   ''root'' \<notin> id_cand ` set (getChildCandidates demoStore1 ''root'' (Some 1)) \<and>
   ''root'' \<notin> id_cand ` set (getAllEmbeddedCandidates demoStore1) \<and>
   (\<exists>r. map_of (nodes demoStore1) ''root'' = Some r \<and> promptIndices r = [])"
  using root_never_candidate[OF demo_reachable1] demo_reachable1 by simp

section \<open>Spawning a topic\<close>

text \<open>
  C4: when the store holds the root alone, the text of the passage is not cached and the
  sentence embedding answers with a vector, \<open>classifyPrompt\<close> returns confidence 0 with
  \<open>isNewNode = True\<close> for a new node of rank 1, which becomes the only child of the root,
  holds the index of the passage and is registered with the sentence vector; the requests
  sent are the sentence embedding and the label, with no second embedding. Two nested
  calls of the recount suffice.
\<close>

theorem cold_start_spawns_header:
  assumes only_root: "nodes ix = [(''root'', r)]" "children r = []"
    and miss: "map_of (cache ix) (hashPrompt (fullText p)) = None"
    and emb: "embedText env 0 (firstSentence p) = Inr v"
    and depth: "2 \<le> d"
  shows "classifyPrompt d env ix p s =
     Some (Returned \<lparr>nodeId = newNodeId env, confidence = 0, isNewNode = True\<rparr>,
           ix\<lparr>nodes :=
                [(''root'', r\<lparr>children := [newNodeId env],
                              promptCount := length (promptIndices r) + 1\<rparr>),
                 (newNodeId env,
                  \<lparr>id_node = newNodeId env,
                   label = fst (fetchLabel env 1 (firstSentence p) ix), rank = 1,
                   children = [], promptIndices = [index p], promptCount = 1,
                   createdAt = now env, updatedAt = now env\<rparr>)],
              embeddings := AList.update (newNodeId env) v (embeddings ix),
              cache := AList.update (hashPrompt (fullText p))
                         \<lparr>nodeId = newNodeId env, confidence = 0\<rparr> (cache ix)\<rparr>,
           [GEMINI_EMBED (firstSentence p),
            GEMINI_LABEL (firstSentence p) (map label (filter (\<lambda>n. rank n > 0) [r]))])"
proof -
  from depth obtain d' where d: "d = Suc (Suc d')" by (metis Suc_le_D numeral_2_eq_2 Suc_le_mono)
  have c1: "getChildCandidates ix ''root'' (Some 1) = []"
    using only_root by (simp add: getChildCandidates_def)
  show ?thesis
    using only_root miss emb c1
    by (simp add: classifyPrompt_def Let_def bestMatch_def step6_def case_prod_beta
        spawnNode_def commit_def returned_def updatePromptCounts_def insertPromptIntoNode_def
        d recountSubtree_Suc recountStep_def fetchLabel_def)
qed

lemma spawn_then_insert:
  assumes sh: "treeShaped ix"
    and fresh: "map_of (nodes ix) (newNodeId env) = None"
    and par: "map_of (nodes ix) pid = Some pn"
    and rk: "rnk = Suc (rank pn)" "rnk \<le> 2"
    and depth: "3 \<le> d"
  shows "\<exists>ix1. updatePromptCounts d
                 (insertPromptIntoNode env (snd (spawnNode env ix pid lbl rnk (Some e)))
                    (newNodeId env) i) = Some ix1 \<and>
           map_of (nodes ix1) (newNodeId env) =
             Some \<lparr>id_node = newNodeId env, label = lbl, rank = rnk, children = [],
                    promptIndices = [i], promptCount = 1,
                    createdAt = now env, updatedAt = now env\<rparr> \<and>
           (\<exists>c. map_of (nodes ix1) pid =
                  Some (pn\<lparr>children := children pn @ [newNodeId env], promptCount := c\<rparr>)) \<and>
           embeddings ix1 = AList.update (newNodeId env) e (embeddings ix) \<and>
           cache ix1 = cache ix \<and> prompts ix1 = prompts ix \<and>
           conversationId ix1 = conversationId ix"
proof -
  let ?nid = "newNodeId env"
  let ?S = "snd (spawnNode env ix pid lbl rnk (Some e))"
  let ?T = "insertPromptIntoNode env ?S ?nid i"
  let ?node = "\<lparr>id_node = ?nid, label = lbl, rank = rnk, children = [],
                   promptIndices = [], promptCount = 0,
                   createdAt = now env, updatedAt = now env\<rparr>"
  have ne: "pid \<noteq> ?nid" using fresh par by auto
  have sh0: "treeShaped ?S" using sh fresh par rk by (rule treeShaped_spawn)
  then have shJ: "treeShaped ?T" by (rule treeShaped_insert)
  from recount_total[OF shJ depth] obtain ix1 where run: "updatePromptCounts d ?T = Some ix1" ..
  note o = updatePromptCounts_Some(1)[OF run]
  have ok: "countsOk ix1" using shJ run by (rule recount_countsOk)
  have N0: "map_of (nodes ?S) = (map_of (nodes ix))(?nid \<mapsto> ?node,
                              pid \<mapsto> pn\<lparr>children := children pn @ [?nid]\<rparr>)"
    using par ne by (simp add: nodes_spawnNode Let_def)
  have Jn: "map_of (nodes ?T) ?nid = Some (?node\<lparr>promptIndices := [i]\<rparr>)"
    using N0 ne by (simp add: insertPromptIntoNode_def map_of_map_entry)
  have Jp: "map_of (nodes ?T) pid = Some (pn\<lparr>children := children pn @ [?nid]\<rparr>)"
    using N0 ne by (simp add: insertPromptIntoNode_def map_of_map_entry)
  from onlyCounts_map_of[OF o, of ?nid] Jn obtain c where
    n1: "map_of (nodes ix1) ?nid = Some (?node\<lparr>promptIndices := [i], promptCount := c\<rparr>)"
    by (cases "map_of (nodes ix1) ?nid") auto
  from ok n1 have "c = 1" unfolding countsOk_def by fastforce
  with n1 have node: "map_of (nodes ix1) ?nid =
             Some \<lparr>id_node = ?nid, label = lbl, rank = rnk, children = [],
                    promptIndices = [i], promptCount = 1,
                    createdAt = now env, updatedAt = now env\<rparr>" by simp
  from onlyCounts_map_of[OF o, of pid] Jp have parent:
    "\<exists>c. map_of (nodes ix1) pid = Some (pn\<lparr>children := children pn @ [?nid], promptCount := c\<rparr>)"
    by (cases "map_of (nodes ix1) pid") auto
  have rest: "embeddings ix1 = AList.update ?nid e (embeddings ix)" "cache ix1 = cache ix"
    "prompts ix1 = prompts ix" "conversationId ix1 = conversationId ix"
    using o by (simp_all add: onlyCounts_def insertPromptIntoNode_def spawnNode_def Let_def)
  from run node parent rest show ?thesis by blast
qed

text \<open>
  C5: in a reachable store, when the text is not cached, the sentence embedding answers
  with a vector, the rank-1 scan matches at \<open>thresholdHigh\<close> and the rank-2 scan under
  the match finds nothing, \<open>classifyPrompt\<close> spawns a node of rank 2 as the last child of
  the matched rank-1 node, registers the sentence vector for it, attaches the passage to it
  and returns \<open>isNewNode = True\<close> with the score of the rank-1 match as confidence.
\<close>

theorem rank1_hit_spawns_subtopic:
  assumes reach: "reachableFresh ix"
    and fresh: "map_of (nodes ix) (newNodeId env) = None"
    and depth: "3 \<le> d"
    and miss: "map_of (cache ix) (hashPrompt (fullText p)) = None"
    and emb: "embedText env 0 (firstSentence p) = Inr v"
    and hit1: "bestMatch v (getChildCandidates ix ''root'' (Some 1)) (thresholdHigh s) = Some rank1Hit"
    and miss2: "bestMatch v (getChildCandidates ix (id_match rank1Hit) (Some 2)) (thresholdHigh s) = None"
  shows "\<exists>ix' parent c.
           classifyPrompt d env ix p s =
             Some (Returned \<lparr>nodeId = newNodeId env, confidence = score rank1Hit, isNewNode = True\<rparr>,
                   ix',
                   [GEMINI_EMBED (firstSentence p),
                    GEMINI_LABEL (firstSentence p)
                      (map label (filter (\<lambda>n. rank n > 0) (map snd (nodes ix))))]) \<and>
           map_of (nodes ix) (id_match rank1Hit) = Some parent \<and> rank parent = 1 \<and>
           map_of (nodes ix') (id_match rank1Hit) =
             Some (parent\<lparr>children := children parent @ [newNodeId env], promptCount := c\<rparr>) \<and>
           map_of (nodes ix') (newNodeId env) =
             Some \<lparr>id_node = newNodeId env,
                    label = fst (fetchLabel env 1 (firstSentence p) ix), rank = 2, children = [],
                    promptIndices = [index p], promptCount = 1,
                    createdAt = now env, updatedAt = now env\<rparr> \<and>
           map_of (embeddings ix') (newNodeId env) = Some v \<and>
           map_of (cache ix') (hashPrompt (fullText p)) =
             Some \<lparr>nodeId = newNodeId env, confidence = score rank1Hit\<rparr>"
proof -
  let ?lbl = "fst (fetchLabel env 1 (firstSentence p) ix)"
  let ?req = "GEMINI_LABEL (firstSentence p)
                      (map label (filter (\<lambda>n. rank n > 0) (map snd (nodes ix))))"
  have req: "snd (fetchLabel env k (firstSentence p) ix) = ?req" for k
    by (simp add: fetchLabel_def Let_def)
  let ?S = "snd (spawnNode env ix (id_match rank1Hit) ?lbl 2 (Some v))"
  let ?h = "hashPrompt (fullText p)"
  from reachableFresh_invariant[OF reach] have sh: "treeShaped ix" by simp
  from bestMatch_id[OF hit1] have "id_match rank1Hit \<in> id_cand ` set (getChildCandidates ix ''root'' (Some 1))" .
  from getChildCandidates_id(2)[OF this] obtain parent where
    par: "map_of (nodes ix) (id_match rank1Hit) = Some parent" "rank parent = 1" by auto
  have eq: "classifyPrompt d env ix p s =
      returned (commit d env ?S ?h (newNodeId env) (score rank1Hit) True (index p))
        [GEMINI_EMBED (firstSentence p), ?req]"
    using miss emb hit1 miss2
    by (simp add: classifyPrompt_def Let_def case_prod_beta spawnNode_id req)
  from spawn_then_insert[OF sh fresh par(1) _ _ depth, of 2 ?lbl v "index p"] par(2)
  obtain ix1 c where
    run: "updatePromptCounts d (insertPromptIntoNode env ?S (newNodeId env) (index p)) = Some ix1" and
    node: "map_of (nodes ix1) (newNodeId env) =
             Some \<lparr>id_node = newNodeId env, label = ?lbl, rank = 2, children = [],
                    promptIndices = [index p], promptCount = 1,
                    createdAt = now env, updatedAt = now env\<rparr>" and
    parent: "map_of (nodes ix1) (id_match rank1Hit) =
                  Some (parent\<lparr>children := children parent @ [newNodeId env], promptCount := c\<rparr>)" and
    e: "embeddings ix1 = AList.update (newNodeId env) v (embeddings ix)"
    by auto
  let ?ix' = "ix1\<lparr>cache := AList.update ?h \<lparr>nodeId = newNodeId env, confidence = score rank1Hit\<rparr> (cache ix1)\<rparr>"
  have "classifyPrompt d env ix p s =
             Some (Returned \<lparr>nodeId = newNodeId env, confidence = score rank1Hit, isNewNode = True\<rparr>,
                   ?ix', [GEMINI_EMBED (firstSentence p), ?req])"
    using eq run by (simp add: returned_def commit_def)
  moreover have "map_of (embeddings ?ix') (newNodeId env) = Some v" using e by (simp add: update_conv')
  moreover have "map_of (cache ?ix') ?h = Some \<lparr>nodeId = newNodeId env, confidence = score rank1Hit\<rparr>"
    by (simp add: update_conv')
  ultimately show ?thesis using par node parent
    by (intro exI[of _ ?ix'] exI[of _ parent] exI[of _ c]) simp
qed

section \<open>Label failures\<close>





theorem cold_start_spawns_header_witness:
  "nodes (createIndex (demoEnv 0) ''c'') =
     [(''root'', \<lparr>id_node = ''root'', label = ''root'', rank = 0, children = [],
                  promptIndices = [], promptCount = 0, createdAt = 0, updatedAt = 0\<rparr>)] \<and>
   map_of (cache (createIndex (demoEnv 0) ''c'')) (hashPrompt (fullText (demoPrompt ''a'' 0))) = None \<and>
   embedText (demoEnv 1) 0 (firstSentence (demoPrompt ''a'' 0)) = Inr [1] \<and>
   classifyPrompt 2 (demoEnv 1) (createIndex (demoEnv 0) ''c'') (demoPrompt ''a'' 0) demoSettings
     = Some (Returned \<lparr>nodeId = ''node_1_a'', confidence = 0, isNewNode = True\<rparr>, demoStore1,
             [GEMINI_EMBED '' a'', GEMINI_LABEL '' a'' []])"
proof -
  let ?r = "\<lparr>id_node = ''root'', label = ''root'', rank = 0, children = [],
                  promptIndices = [], promptCount = 0, createdAt = 0, updatedAt = 0\<rparr>"
  have h1: "nodes (createIndex (demoEnv 0) ''c'') = [(''root'', ?r)]" by (simp add: createIndex_def)
  have h2: "children ?r = []" by simp
  have h3: "map_of (cache (createIndex (demoEnv 0) ''c'')) (hashPrompt (fullText (demoPrompt ''a'' 0))) = None"
    by (simp add: createIndex_def)
  have h4: "embedText (demoEnv 1) 0 (firstSentence (demoPrompt ''a'' 0)) = Inr [1]" by simp
  have h5: "(2 :: nat) \<le> 2" by simp
  from cold_start_spawns_header[OF h1 h2 h3 h4 h5, of demoSettings] h1 h3 h4
  show ?thesis
    by (simp add: demo_newNodeId[simplified] fetchLabel_def createIndex_def demoStore1_def
        demoPrompt_def trim_def isWhiteSpace_def)
qed

lemma demo_hit1:
  "bestMatch [1] (getChildCandidates demoStore1 ''root'' (Some 1)) (thresholdHigh demoSettings)
     = Some \<lparr>id_match = ''node_1_a'', score = 1\<rparr>"
  by (simp add: bestMatch_def getChildCandidates_def demoStore1_def demoSettings_def
      cosineSimilarity_def)

lemma demo_miss2:
  "bestMatch [1] (getChildCandidates demoStore1 ''node_1_a'' (Some 2)) (thresholdHigh demoSettings)
     = None"
  by (simp add: bestMatch_def getChildCandidates_def demoStore1_def)

lemma demo_fresh_id2: "map_of (nodes demoStore1) (newNodeId (demoEnv 2)) = None"
  by (simp add: demoStore1_def demo_newNodeId)

lemma demo_miss_b: "map_of (cache demoStore1) (hashPrompt (fullText (demoPrompt ''b'' 1))) = None"
  by (simp add: demoStore1_def demoPrompt_def demo_hashes)

theorem rank1_hit_spawns_subtopic_witness:
  "reachableFresh demoStore1 \<and>
   map_of (nodes demoStore1) (newNodeId (demoEnv 2)) = None \<and>
   map_of (cache demoStore1) (hashPrompt (fullText (demoPrompt ''b'' 1))) = None \<and>
   embedText (demoEnv 2) 0 (firstSentence (demoPrompt ''b'' 1)) = Inr [1] \<and>
   bestMatch [1] (getChildCandidates demoStore1 ''root'' (Some 1)) (thresholdHigh demoSettings)
     = Some \<lparr>id_match = ''node_1_a'', score = 1\<rparr> \<and>
   bestMatch [1] (getChildCandidates demoStore1 ''node_1_a'' (Some 2)) (thresholdHigh demoSettings)
     = None \<and>
   (\<exists>ix' parent c.
      classifyPrompt 3 (demoEnv 2) demoStore1 (demoPrompt ''b'' 1) demoSettings =
        Some (Returned \<lparr>nodeId = ''node_2_a'', confidence = 1, isNewNode = True\<rparr>, ix',
              [GEMINI_EMBED '' b'', GEMINI_LABEL '' b'' [''a'']]) \<and>
      map_of (nodes demoStore1) ''node_1_a'' = Some parent \<and> rank parent = 1 \<and>
      map_of (nodes ix') ''node_1_a'' =
        Some (parent\<lparr>children := children parent @ [''node_2_a''], promptCount := c\<rparr>) \<and>
      map_of (nodes ix') ''node_2_a'' =
        Some \<lparr>id_node = ''node_2_a'', label = ''b'', rank = 2, children = [],
               promptIndices = [1], promptCount = 1, createdAt = 2, updatedAt = 2\<rparr> \<and>
      map_of (embeddings ix') ''node_2_a'' = Some [1])"
proof -
  have h4: "embedText (demoEnv 2) 0 (firstSentence (demoPrompt ''b'' 1)) = Inr [1]" by simp
  have h5: "(3 :: nat) \<le> 3" by simp
  have m2: "bestMatch [1] (getChildCandidates demoStore1
              (id_match \<lparr>id_match = ''node_1_a'', score = 1\<rparr>) (Some 2))
              (thresholdHigh demoSettings) = None"
    using demo_miss2 by simp
  have fl: "fetchLabel (demoEnv 2) (Suc 0) '' b'' demoStore1
              = (''b'', GEMINI_LABEL '' b'' [''a''])"
    by (simp add: fetchLabel_def demoStore1_def demoPrompt_def trim_def isWhiteSpace_def)
  have labels: "map label (filter (\<lambda>n. 0 < rank n) (map snd (nodes demoStore1))) = [''a'']"
    by (simp add: demoStore1_def)
  from rank1_hit_spawns_subtopic[OF demo_fresh1 demo_fresh_id2 h5 demo_miss_b h4 demo_hit1 m2]
  obtain ix' parent c where
    "classifyPrompt 3 (demoEnv 2) demoStore1 (demoPrompt ''b'' 1) demoSettings =
        Some (Returned \<lparr>nodeId = ''node_2_a'', confidence = 1, isNewNode = True\<rparr>, ix',
              [GEMINI_EMBED '' b'', GEMINI_LABEL '' b'' [''a'']])"
    "map_of (nodes demoStore1) ''node_1_a'' = Some parent" "rank parent = 1"
    "map_of (nodes ix') ''node_1_a'' =
        Some (parent\<lparr>children := children parent @ [''node_2_a''], promptCount := c\<rparr>)"
    "map_of (nodes ix') ''node_2_a'' =
        Some \<lparr>id_node = ''node_2_a'', label = ''b'', rank = 2, children = [],
               promptIndices = [1], promptCount = 1, createdAt = 2, updatedAt = 2\<rparr>"
    "map_of (embeddings ix') ''node_2_a'' = Some [1]"
    by (auto simp: fl labels demo_newNodeId demoPrompt_def)
  then have "\<exists>ix' parent c.
      classifyPrompt 3 (demoEnv 2) demoStore1 (demoPrompt ''b'' 1) demoSettings =
        Some (Returned \<lparr>nodeId = ''node_2_a'', confidence = 1, isNewNode = True\<rparr>, ix',
              [GEMINI_EMBED '' b'', GEMINI_LABEL '' b'' [''a'']]) \<and>
      map_of (nodes demoStore1) ''node_1_a'' = Some parent \<and> rank parent = 1 \<and>
      map_of (nodes ix') ''node_1_a'' =
        Some (parent\<lparr>children := children parent @ [''node_2_a''], promptCount := c\<rparr>) \<and>
      map_of (nodes ix') ''node_2_a'' =
        Some \<lparr>id_node = ''node_2_a'', label = ''b'', rank = 2, children = [],
               promptIndices = [1], promptCount = 1, createdAt = 2, updatedAt = 2\<rparr> \<and>
      map_of (embeddings ix') ''node_2_a'' = Some [1]" by blast
  with demo_fresh1 demo_fresh_id2 demo_miss_b h4 demo_hit1 demo_miss2 show ?thesis by blast
qed


end
